theory Spec2Isabelle
  imports Main "HOL-Library.Multiset"
begin

unbundle bit_operations_syntax

section \<open>Data model of routing\_table.go\<close>

text \<open>
  A \<open>Contact\<close> is the struct \<open>{Id big.Int; Addr net.TCPAddr}\<close>. The unbounded
  \<open>big.Int\<close> is an \<open>int\<close>; a \<open>net.TCPAddr\<close> is the record of its three
  fields (the IP as its bytes). The field \<open>Id\<close> is written \<open>Id_c\<close>, because
  \<open>Id\<close> is the identity relation of HOL.
\<close>

record TCPAddr =
  IP :: "nat list"
  Port :: int
  Zone :: string

record Contact =
  Id_c :: int
  Addr :: TCPAddr

text \<open>Go's zero values \<open>net.TCPAddr{}\<close> and \<open>Contact{}\<close>: what \<open>make([]Contact, n)\<close>
  fills a fresh slice with.\<close>

definition zeroTCPAddr :: TCPAddr where
  "zeroTCPAddr = \<lparr>IP = [], Port = 0, Zone = []\<rparr>"

definition zeroContact :: Contact where
  "zeroContact = \<lparr>Id_c = 0, Addr = zeroTCPAddr\<rparr>"

text \<open>The run-time panics the file can reach: a field read through a nil
  \<open>*KBucket\<close>, an index outside a slice, and the type assertion
  \<open>result.Value.(Contact)\<close> on a \<open>Value\<close> that is nil.\<close>

datatype error = NilDereference | IndexOutOfRange | InterfaceConversion

text \<open>\<open>AreEqualContacts\<close> compares the identifiers only (\<open>a.Id.Cmp(&b.Id) == 0\<close>).\<close>

definition AreEqualContacts :: "Contact \<Rightarrow> Contact \<Rightarrow> bool" where
  "AreEqualContacts a b = (Id_c a = Id_c b)"

text \<open>
  \<open>KBucket\<close> holds its two \<open>container/list\<close> lists by value, and \<open>NewKBucket\<close>
  fills them with \<open>*list.New()\<close>, a copy of the list that \<open>New\<close> allocated. The
  root of the copy keeps the pointers of the root it was copied from: an element pushed
  into the bucket's list is linked between the bucket's root and the root that \<open>New\<close>
  allocated, the stale root. So the last element's \<open>Next()\<close> is not nil: it is the
  stale root, which belongs to no list (its \<open>list\<close> field is nil) and has the
  \<open>Value\<close> nil, and whose own \<open>Next()\<close> is nil.

  A list is modelled by the HOL list of the values pushed into it, head at \<open>Front()\<close>.
  A \<open>*list.Element\<close> that a loop over the list can reach is the element at a position
  or the stale root.
\<close>

record KBucket =
  contacts :: "Contact list"
  k :: int
  lruCache :: "Contact list"

datatype Element = Elem nat | StaleRoot

text \<open>\<open>elements l\<close> are the elements that \<open>for e := l.Front(); e != nil; e = e.Next()\<close>
  visits, each with its \<open>Value\<close> (\<open>None\<close> is nil): \<open>Front()\<close> of a list of length 0
  is nil, and after the last element of any other list comes the stale root.\<close>

definition elements :: "'a list \<Rightarrow> (Element \<times> 'a option) list" where
  "elements l =
     (if l = [] then []
      else map (\<lambda>(i, v). (Elem i, Some v)) (enumerate 0 l) @ [(StaleRoot, None)])"

text \<open>\<open>e.Value\<close>, and what \<open>curr, _ := e.Value.(Contact)\<close> leaves in \<open>curr\<close>: the
  zero contact when the value is nil.\<close>

definition Value :: "'a list \<Rightarrow> Element \<Rightarrow> 'a option" where
  "Value l e = (case e of Elem i \<Rightarrow> (if i < length l then Some (l ! i) else None) | StaleRoot \<Rightarrow> None)"

definition asContact :: "Contact option \<Rightarrow> Contact" where
  "asContact v = (case v of Some c \<Rightarrow> c | None \<Rightarrow> zeroContact)"

text \<open>\<open>MoveToFront\<close> and \<open>Remove\<close> do nothing to an element whose \<open>list\<close> field is
  not the list, as the stale root's.\<close>

definition PushFront :: "'a list \<Rightarrow> 'a \<Rightarrow> 'a list" where
  "PushFront l v = v # l"

definition MoveToFront :: "'a list \<Rightarrow> Element \<Rightarrow> 'a list" where
  "MoveToFront l e =
     (case e of
        Elem i \<Rightarrow> (if i < length l then (l ! i) # (take i l @ drop (Suc i) l) else l)
      | StaleRoot \<Rightarrow> l)"

definition Remove :: "'a list \<Rightarrow> Element \<Rightarrow> 'a list" where
  "Remove l e =
     (case e of
        Elem i \<Rightarrow> (if i < length l then take i l @ drop (Suc i) l else l)
      | StaleRoot \<Rightarrow> l)"

text \<open>
  The owner \<open>*Node\<close> is declared outside routing\_table.go. The file uses two of its
  methods, \<open>GetKBucketFromID\<close> and \<open>GetKBucketFromAddr\<close>, which give the bucket
  index of an identifier and of an address; they are parameters of the model, the two
  fields of the record. The logger writes no state of the table and is left out.
\<close>

record Node =
  GetKBucketFromID :: "int \<Rightarrow> int"
  GetKBucketFromAddr :: "TCPAddr \<Rightarrow> int"

text \<open>\<open>RoutingTable\<close>: a nil \<open>*KBucket\<close> slot is \<open>None\<close>. The mutex guards
  nothing the file locks and is left out.\<close>

record RoutingTable =
  owner :: Node
  kBuckets :: "KBucket option list"
  numNeighbors :: int

text \<open>
  Modelled from the spec: the package constant \<open>k\<close> that \<open>findKNearestContacts\<close>
  reads is declared outside routing\_table.go. The spec gives the protocol parameter k its
  canonical value 20, the capacity that the file itself writes out in \<open>NewKBucket(20)\<close>
  and in \<open>getAllContacts\<close>. The record field \<open>k\<close> above is the bucket's own
  \<open>self.k\<close>.
\<close>

definition k_package :: nat where
  "k_package = 20"

section \<open>KBucket\<close>

definition NewKBucket :: "int \<Rightarrow> KBucket" where
  "NewKBucket kk = \<lparr>contacts = [], k = kk, lruCache = []\<rparr>"

text \<open>The loop of \<open>getFromList\<close> over the elements still to visit: the first element
  whose \<open>curr\<close> is equal to \<open>contact\<close>. On the stale root \<open>curr\<close> is the zero
  contact, which is equal to every contact with the identifier 0.\<close>

fun getFromList_from :: "(Element \<times> Contact option) list \<Rightarrow> Contact \<Rightarrow> Element option" where
  "getFromList_from [] contact = None"
| "getFromList_from ((e, v) # es) contact =
     (if AreEqualContacts (asContact v) contact then Some e
      else getFromList_from es contact)"

definition getFromList :: "KBucket \<Rightarrow> Contact \<Rightarrow> Element option" where
  "getFromList self contact = getFromList_from (elements (contacts self)) contact"

text \<open>
  \<open>getAllContacts\<close> allocates a slice of 20 zero contacts and writes \<open>curr\<close> of every
  element that the loop visits into it, from index 0; writing at an index outside the
  slice panics. The loop visits the stale root too, so a bucket of 20 contacts writes at
  index 20 and panics. The slice is returned with its length 20 whatever the list holds.
\<close>

fun getAllContacts_loop ::
  "(Element \<times> Contact option) list \<Rightarrow> nat \<Rightarrow> Contact list \<Rightarrow> error + Contact list" where
  "getAllContacts_loop [] index arr = Inr arr"
| "getAllContacts_loop ((e, v) # es) index arr =
     (if index < length arr
      then getAllContacts_loop es (Suc index) (arr[index := asContact v])
      else Inl IndexOutOfRange)"

definition getAllContacts :: "KBucket \<Rightarrow> error + Contact list" where
  "getAllContacts self =
     getAllContacts_loop (elements (contacts self)) 0 (replicate 20 zeroContact)"

text \<open>A method called through a \<open>*KBucket\<close> that is nil panics at its first field
  read, before it changes anything.\<close>

definition getAllContacts_ptr :: "KBucket option \<Rightarrow> error + Contact list" where
  "getAllContacts_ptr p = (case p of None \<Rightarrow> Inl NilDereference | Some self \<Rightarrow> getAllContacts self)"

definition addContact :: "KBucket \<Rightarrow> Contact \<Rightarrow> KBucket \<times> bool" where
  "addContact self contact =
     (case getFromList self contact of
        Some element \<Rightarrow> (self\<lparr>contacts := MoveToFront (contacts self) element\<rparr>, True)
      | None \<Rightarrow>
          if int (length (contacts self)) < k self
          then (self\<lparr>contacts := PushFront (contacts self) contact\<rparr>, True)
          else (self, False))"

text \<open>\<open>removeContact\<close> returns true whenever \<open>getFromList\<close> returns an element, also
  when \<open>Remove\<close> did nothing to it.\<close>

definition removeContact :: "KBucket \<Rightarrow> Contact \<Rightarrow> KBucket \<times> bool" where
  "removeContact self contact =
     (case getFromList self contact of
        Some element \<Rightarrow> (self\<lparr>contacts := Remove (contacts self) element\<rparr>, True)
      | None \<Rightarrow> (self, False))"

section \<open>RoutingTable\<close>

definition NewRoutingTable :: "Node \<Rightarrow> RoutingTable" where
  "NewRoutingTable own = \<lparr>owner = own, kBuckets = replicate 160 None, numNeighbors = 0\<rparr>"

text \<open>\<open>self.kBuckets[index]\<close>, with Go's bounds check.\<close>

definition bucketAt :: "RoutingTable \<Rightarrow> int \<Rightarrow> error + KBucket option" where
  "bucketAt self index =
     (if 0 \<le> index \<and> index < int (length (kBuckets self))
      then Inr (kBuckets self ! nat index) else Inl IndexOutOfRange)"

text \<open>\<open>add\<close> takes the index from the contact's address, creates the bucket when the
  slot is nil, and drops the boolean of \<open>addContact\<close>.\<close>

definition add :: "RoutingTable \<Rightarrow> Contact \<Rightarrow> error + RoutingTable" where
  "add self contact =
     (let index = GetKBucketFromAddr (owner self) (Addr contact) in
      case bucketAt self index of
        Inl e \<Rightarrow> Inl e
      | Inr slot \<Rightarrow>
          (let bucket = (case slot of None \<Rightarrow> NewKBucket 20 | Some b \<Rightarrow> b) in
           Inr (self\<lparr>kBuckets :=
                  (kBuckets self)[nat index := Some (fst (addContact bucket contact))]\<rparr>)))"

text \<open>\<open>remove\<close> (written \<open>remove_rt\<close>: \<open>remove\<close> is a constant of HOL's sets) calls
  \<open>removeContact\<close> through the slot without a nil check.\<close>

definition remove_rt :: "RoutingTable \<Rightarrow> Contact \<Rightarrow> error + RoutingTable" where
  "remove_rt self contact =
     (let index = GetKBucketFromAddr (owner self) (Addr contact) in
      case bucketAt self index of
        Inl e \<Rightarrow> Inl e
      | Inr None \<Rightarrow> Inl NilDereference
      | Inr (Some b) \<Rightarrow>
          Inr (self\<lparr>kBuckets :=
                 (kBuckets self)[nat index := Some (fst (removeContact b contact))]\<rparr>))"

definition clear :: "RoutingTable \<Rightarrow> RoutingTable" where
  "clear self = self\<lparr>kBuckets := []\<rparr>"

text \<open>\<open>ContactFromID\<close> takes the index from the identifier and checks the slot for
  nil; \<open>Inr None\<close> is its nil result. The type assertion \<open>result.Value.(Contact)\<close>
  has one result and panics on the nil \<open>Value\<close> of the stale root.\<close>

definition ContactFromID :: "RoutingTable \<Rightarrow> int \<Rightarrow> error + Contact option" where
  "ContactFromID table ident =
     (let contact = \<lparr>Id_c = ident, Addr = zeroTCPAddr\<rparr>;
          index = GetKBucketFromID (owner table) ident in
      case bucketAt table index of
        Inl e \<Rightarrow> Inl e
      | Inr None \<Rightarrow> Inr None
      | Inr (Some kbucket) \<Rightarrow>
          (case getFromList kbucket contact of
             Some result \<Rightarrow>
               (case Value (contacts kbucket) result of
                  Some toReturn \<Rightarrow> Inr (Some toReturn)
                | None \<Rightarrow> Inl InterfaceConversion)
           | None \<Rightarrow> Inr None))"

section \<open>findKNearestContacts\<close>

text \<open>
  Modelled from the spec: \<open>distanceBetween\<close> is declared outside routing\_table.go;
  the spec's distance of two identifiers is their bitwise XOR.
\<close>

definition distanceBetween :: "int \<Rightarrow> int \<Rightarrow> int" where
  "distanceBetween a b = a XOR b"

text \<open>\<open>big.Int.Uint64\<close> returns the low 64 bits of the magnitude. A \<open>uint64\<close> is
  modelled by its value, an \<open>int\<close> from 0 up to \<open>2 ^ 64 - 1\<close>.\<close>

definition Uint64 :: "int \<Rightarrow> int" where
  "Uint64 x = \<bar>x\<bar> mod 2 ^ 64"

text \<open>
  The conversion \<open>float64(u)\<close> of a \<open>uint64\<close> rounds to 53 significant bits, to
  nearest and to even on a tie. Its value is a whole number again: \<open>float64_shift\<close> is
  the number of low bits that are rounded away.
\<close>

function float64_shift :: "int \<Rightarrow> nat" where
  "float64_shift n = (if n < 2 ^ 53 then 0 else Suc (float64_shift (n div 2)))"
  by pat_completeness auto
termination
  by (relation "measure nat") auto

declare float64_shift.simps [simp del]

definition float64 :: "int \<Rightarrow> int" where
  "float64 n =
     (let e = float64_shift n; q = n div 2 ^ e; r = n mod 2 ^ e in
      if 2 ^ e < 2 * r \<or> (2 * r = 2 ^ e \<and> odd q) then (q + 1) * 2 ^ e else q * 2 ^ e)"

text \<open>The comparison handed to \<open>sort.Slice\<close>.\<close>

definition kNearest_less :: "int \<Rightarrow> Contact \<Rightarrow> Contact \<Rightarrow> bool" where
  "kNearest_less ident a b =
     (let aDist = float64 (Uint64 (distanceBetween ident (Id_c a)));
          bDist = float64 (Uint64 (distanceBetween ident (Id_c b)))
      in aDist < bDist)"

text \<open>
  \<open>sort.Slice\<close> is the library's sort, which is not stable. It is modelled by an
  insertion sort under the same comparison: the result is a permutation in which no
  entry is \<open>lt\<close> an earlier one. The order among entries that \<open>lt\<close> does not separate
  is the model's choice and may differ from the library's; every statement below about a
  result of the sort is on an input where that order does not show
  (\<open>sort_Slice_any_order\<close>), or is about the result as a set or its length.
\<close>

fun sort_insert :: "('a \<Rightarrow> 'a \<Rightarrow> bool) \<Rightarrow> 'a \<Rightarrow> 'a list \<Rightarrow> 'a list" where
  "sort_insert lt x [] = [x]"
| "sort_insert lt x (y # ys) = (if lt y x then y # sort_insert lt x ys else x # y # ys)"

definition sort_Slice :: "'a list \<Rightarrow> ('a \<Rightarrow> 'a \<Rightarrow> bool) \<Rightarrow> 'a list" where
  "sort_Slice xs lt = foldr (sort_insert lt) xs []"

text \<open>\<open>copy(dst, src)\<close> overwrites the first \<open>min (len dst) (len src)\<close> entries.\<close>

definition copy_slice :: "'a list \<Rightarrow> 'a list \<Rightarrow> 'a list" where
  "copy_slice dst src = take (length dst) src @ drop (length src) dst"

text \<open>
  The loop to the left, \<open>for curr := index - 1; curr > 0; index--\<close>: the post
  statement decrements \<open>index\<close>, and \<open>curr\<close> (written \<open>cur\<close>) keeps its value.
  The loop returns the new \<open>index\<close> with the slice. Each round appends the 20 entries of
  \<open>getAllContacts\<close> or panics, which is why the recursion ends.
\<close>

function findKNearest_left ::
  "RoutingTable \<Rightarrow> int \<Rightarrow> int \<Rightarrow> Contact list \<Rightarrow> error + (int \<times> Contact list)" where
  "findKNearest_left self cur index kNearest =
     (if cur > 0 then
        (case bucketAt self cur of
           Inl e \<Rightarrow> Inl e
         | Inr currBucket \<Rightarrow>
             (case getAllContacts_ptr currBucket of
                Inl e \<Rightarrow> Inl e
              | Inr cs \<Rightarrow>
                  (let kNearest' = kNearest @ cs in
                   if length kNearest' \<ge> k_package then Inr (index, kNearest')
                   else findKNearest_left self cur (index - 1) kNearest')))
      else Inr (index, kNearest))"
  by pat_completeness auto
termination
proof -
  have len: "length cs = length arr" if "getAllContacts_loop es index arr = Inr cs"
    for es index arr cs
    using that
    by (induction es index arr rule: getAllContacts_loop.induct) (auto split: if_splits)
  show ?thesis
    by (relation "measure (\<lambda>(self, cur, index, kNearest). k_package - length kNearest)")
      (auto simp: getAllContacts_ptr_def getAllContacts_def dest: len split: option.splits)
qed

declare findKNearest_left.simps [simp del]

text \<open>The loop to the right, \<open>for curr := index + 1; curr < len(self.kBuckets); curr++\<close>.\<close>

function findKNearest_right ::
  "RoutingTable \<Rightarrow> int \<Rightarrow> Contact list \<Rightarrow> error + Contact list" where
  "findKNearest_right self cur kNearest =
     (if cur < int (length (kBuckets self)) then
        (case bucketAt self cur of
           Inl e \<Rightarrow> Inl e
         | Inr currBucket \<Rightarrow>
             (case getAllContacts_ptr currBucket of
                Inl e \<Rightarrow> Inl e
              | Inr cs \<Rightarrow>
                  (let kNearest' = kNearest @ cs in
                   if length kNearest' \<ge> k_package then Inr kNearest'
                   else findKNearest_right self (cur + 1) kNearest')))
      else Inr kNearest)"
  by pat_completeness auto
termination
  by (relation "measure (\<lambda>(self, cur, kNearest). nat (int (length (kBuckets self)) - cur))")
    auto

declare findKNearest_right.simps [simp del]

text \<open>
  \<open>findKNearestContacts\<close>. The slice starts with length \<open>k\<close> and only grows, so
  the reslice \<open>kNearest[:k]\<close> is \<open>take\<close>.
\<close>

definition findKNearestContacts :: "RoutingTable \<Rightarrow> int \<Rightarrow> error + Contact list" where
  "findKNearestContacts self ident =
     (let kNearest0 = replicate k_package zeroContact;
          index0 = GetKBucketFromID (owner self) ident in
      case bucketAt self index0 of
        Inl e \<Rightarrow> Inl e
      | Inr slot \<Rightarrow>
          (case getAllContacts_ptr slot of
             Inl e \<Rightarrow> Inl e
           | Inr cs \<Rightarrow>
               (let kNearest1 = copy_slice kNearest0 cs in
                case (if length kNearest1 < k_package
                      then findKNearest_left self (index0 - 1) index0 kNearest1
                      else Inr (index0, kNearest1)) of
                  Inl e \<Rightarrow> Inl e
                | Inr (index1, kNearest2) \<Rightarrow>
                    (case (if length kNearest2 < k_package
                           then findKNearest_right self (index1 + 1) kNearest2
                           else Inr kNearest2) of
                       Inl e \<Rightarrow> Inl e
                     | Inr kNearest3 \<Rightarrow>
                         Inr (sort_Slice (take k_package kNearest3) (kNearest_less ident))))))"

section \<open>Sequences of operations\<close>

text \<open>
  The calls a caller can make on a table, and a run of them from a given table. A panic
  ends the run; \<open>ContactFromID\<close> and \<open>findKNearestContacts\<close> leave the table as it
  is.
\<close>

datatype operation =
  OpAdd Contact | OpRemove Contact | OpLookup int | OpFindKNearest int | OpClear

fun apply_op :: "RoutingTable \<Rightarrow> operation \<Rightarrow> error + RoutingTable" where
  "apply_op self (OpAdd contact) = add self contact"
| "apply_op self (OpRemove contact) = remove_rt self contact"
| "apply_op self (OpLookup ident) =
     (case ContactFromID self ident of Inl e \<Rightarrow> Inl e | Inr r \<Rightarrow> Inr self)"
| "apply_op self (OpFindKNearest ident) =
     (case findKNearestContacts self ident of Inl e \<Rightarrow> Inl e | Inr r \<Rightarrow> Inr self)"
| "apply_op self OpClear = Inr (clear self)"

fun run_ops :: "RoutingTable \<Rightarrow> operation list \<Rightarrow> error + RoutingTable" where
  "run_ops self [] = Inr self"
| "run_ops self (oper # opers) =
     (case apply_op self oper of Inl e \<Rightarrow> Inl e | Inr self' \<Rightarrow> run_ops self' opers)"

text \<open>The buckets a table holds (its slots that are not nil) and the contacts stored
  in them, slot by slot.\<close>

definition buckets :: "RoutingTable \<Rightarrow> KBucket list" where
  "buckets self = concat (map (\<lambda>p. case p of None \<Rightarrow> [] | Some b \<Rightarrow> [b]) (kBuckets self))"

definition stored :: "RoutingTable \<Rightarrow> Contact list" where
  "stored self =
     concat (map (\<lambda>p. case p of None \<Rightarrow> [] | Some b \<Rightarrow> contacts b) (kBuckets self))"

text \<open>
  What every bucket of a table built by \<open>add\<close> satisfies: the capacity 20 that
  \<open>add\<close> hands to \<open>NewKBucket\<close>, at most 20 contacts, no identifier twice, and an
  empty \<open>lruCache\<close>.
\<close>

definition bucket_inv :: "KBucket \<Rightarrow> bool" where
  "bucket_inv b =
     (k b = 20 \<and> length (contacts b) \<le> 20 \<and> distinct (map Id_c (contacts b)) \<and>
      lruCache b = [])"

definition table_inv :: "RoutingTable \<Rightarrow> bool" where
  "table_inv self = list_all bucket_inv (buckets self)"

text \<open>Every stored contact sits in the slot that the owner's \<open>GetKBucketFromID\<close> gives
  its identifier.\<close>

definition routed :: "RoutingTable \<Rightarrow> bool" where
  "routed self =
     list_all
       (\<lambda>(i, p). case p of
           None \<Rightarrow> True
         | Some b \<Rightarrow> list_all (\<lambda>c. GetKBucketFromID (owner self) (Id_c c) = int i) (contacts b))
       (enumerate 0 (kBuckets self))"

section \<open>Counting loop rounds\<close>

text \<open>
  The cost of a call is counted in rounds of the loops that routing\_table.go writes: one
  for every execution of a loop body, the round on the stale root and a round that panics
  included. Calls into the
  libraries (\<open>container/list\<close>, \<open>append\<close>, \<open>copy\<close>, \<open>sort.Slice\<close>) are not
  loops of the file and count nothing. Each counter follows the recursion of the function
  it counts.
\<close>

fun getFromList_rounds :: "(Element \<times> Contact option) list \<Rightarrow> Contact \<Rightarrow> nat" where
  "getFromList_rounds [] contact = 0"
| "getFromList_rounds ((e, v) # es) contact =
     (if AreEqualContacts (asContact v) contact then 1
      else Suc (getFromList_rounds es contact))"

fun getAllContacts_rounds ::
  "(Element \<times> Contact option) list \<Rightarrow> nat \<Rightarrow> Contact list \<Rightarrow> nat" where
  "getAllContacts_rounds [] index arr = 0"
| "getAllContacts_rounds ((e, v) # es) index arr =
     (if index < length arr
      then Suc (getAllContacts_rounds es (Suc index) (arr[index := asContact v]))
      else 1)"

definition getAllContacts_ptr_rounds :: "KBucket option \<Rightarrow> nat" where
  "getAllContacts_ptr_rounds p =
     (case p of None \<Rightarrow> 0
      | Some self \<Rightarrow>
          getAllContacts_rounds (elements (contacts self)) 0 (replicate 20 zeroContact))"

definition add_rounds :: "RoutingTable \<Rightarrow> Contact \<Rightarrow> nat" where
  "add_rounds self contact =
     (let index = GetKBucketFromAddr (owner self) (Addr contact) in
      case bucketAt self index of
        Inl e \<Rightarrow> 0
      | Inr slot \<Rightarrow>
          (let bucket = (case slot of None \<Rightarrow> NewKBucket 20 | Some b \<Rightarrow> b) in
           getFromList_rounds (elements (contacts bucket)) contact))"

definition remove_rounds :: "RoutingTable \<Rightarrow> Contact \<Rightarrow> nat" where
  "remove_rounds self contact =
     (let index = GetKBucketFromAddr (owner self) (Addr contact) in
      case bucketAt self index of
        Inl e \<Rightarrow> 0
      | Inr None \<Rightarrow> 0
      | Inr (Some b) \<Rightarrow> getFromList_rounds (elements (contacts b)) contact)"

definition ContactFromID_rounds :: "RoutingTable \<Rightarrow> int \<Rightarrow> nat" where
  "ContactFromID_rounds table ident =
     (let contact = \<lparr>Id_c = ident, Addr = zeroTCPAddr\<rparr>;
          index = GetKBucketFromID (owner table) ident in
      case bucketAt table index of
        Inl e \<Rightarrow> 0
      | Inr None \<Rightarrow> 0
      | Inr (Some kbucket) \<Rightarrow> getFromList_rounds (elements (contacts kbucket)) contact)"

function findKNearest_left_rounds ::
  "RoutingTable \<Rightarrow> int \<Rightarrow> int \<Rightarrow> Contact list \<Rightarrow> nat" where
  "findKNearest_left_rounds self cur index kNearest =
     (if cur > 0 then
        (case bucketAt self cur of
           Inl e \<Rightarrow> 1
         | Inr currBucket \<Rightarrow>
             1 + getAllContacts_ptr_rounds currBucket +
             (case getAllContacts_ptr currBucket of
                Inl e \<Rightarrow> 0
              | Inr cs \<Rightarrow>
                  (let kNearest' = kNearest @ cs in
                   if length kNearest' \<ge> k_package then 0
                   else findKNearest_left_rounds self cur (index - 1) kNearest')))
      else 0)"
  by pat_completeness auto
termination
proof -
  have len: "length cs = length arr" if "getAllContacts_loop es index arr = Inr cs"
    for es index arr cs
    using that
    by (induction es index arr rule: getAllContacts_loop.induct) (auto split: if_splits)
  show ?thesis
    by (relation "measure (\<lambda>(self, cur, index, kNearest). k_package - length kNearest)")
      (auto simp: getAllContacts_ptr_def getAllContacts_def dest: len split: option.splits)
qed

declare findKNearest_left_rounds.simps [simp del]

function findKNearest_right_rounds :: "RoutingTable \<Rightarrow> int \<Rightarrow> Contact list \<Rightarrow> nat" where
  "findKNearest_right_rounds self cur kNearest =
     (if cur < int (length (kBuckets self)) then
        (case bucketAt self cur of
           Inl e \<Rightarrow> 1
         | Inr currBucket \<Rightarrow>
             1 + getAllContacts_ptr_rounds currBucket +
             (case getAllContacts_ptr currBucket of
                Inl e \<Rightarrow> 0
              | Inr cs \<Rightarrow>
                  (let kNearest' = kNearest @ cs in
                   if length kNearest' \<ge> k_package then 0
                   else findKNearest_right_rounds self (cur + 1) kNearest')))
      else 0)"
  by pat_completeness auto
termination
  by (relation "measure (\<lambda>(self, cur, kNearest). nat (int (length (kBuckets self)) - cur))")
    auto

declare findKNearest_right_rounds.simps [simp del]

definition findKNearestContacts_rounds :: "RoutingTable \<Rightarrow> int \<Rightarrow> nat" where
  "findKNearestContacts_rounds self ident =
     (let kNearest0 = replicate k_package zeroContact;
          index0 = GetKBucketFromID (owner self) ident in
      case bucketAt self index0 of
        Inl e \<Rightarrow> 0
      | Inr slot \<Rightarrow>
          getAllContacts_ptr_rounds slot +
          (case getAllContacts_ptr slot of
             Inl e \<Rightarrow> 0
           | Inr cs \<Rightarrow>
               (let kNearest1 = copy_slice kNearest0 cs in
                (if length kNearest1 < k_package
                 then findKNearest_left_rounds self (index0 - 1) index0 kNearest1 else 0) +
                (case (if length kNearest1 < k_package
                       then findKNearest_left self (index0 - 1) index0 kNearest1
                       else Inr (index0, kNearest1)) of
                   Inl e \<Rightarrow> 0
                 | Inr (index1, kNearest2) \<Rightarrow>
                     (if length kNearest2 < k_package
                      then findKNearest_right_rounds self (index1 + 1) kNearest2 else 0)))))"

section \<open>Example tables\<close>

text \<open>
  An owner for the examples. Its two methods stand in for the ones of \<open>Node\<close>: the
  index of an identifier is 160 minus its bit length (the owner's own identifier is 0, and
  bit 0 is the most significant of 160), and the index of an address is 159 minus its
  port, so that an address with port \<open>p\<close> is indexed like an identifier of \<open>p + 1\<close>
  bits.
\<close>

function bitLen :: "int \<Rightarrow> nat" where
  "bitLen n = (if n \<le> 0 then 0 else Suc (bitLen (n div 2)))"
  by pat_completeness auto
termination
  by (relation "measure nat") auto

declare bitLen.simps [simp del]

definition ex_GetKBucketFromID :: "int \<Rightarrow> int" where
  "ex_GetKBucketFromID ident = 160 - int (bitLen \<bar>ident\<bar>)"

definition ex_GetKBucketFromAddr :: "TCPAddr \<Rightarrow> int" where
  "ex_GetKBucketFromAddr a = 159 - Port a"

definition ex_owner :: Node where
  "ex_owner =
     \<lparr>GetKBucketFromID = ex_GetKBucketFromID, GetKBucketFromAddr = ex_GetKBucketFromAddr\<rparr>"

text \<open>\<open>ex_contact ident host port\<close> is the contact with that identifier at the
  address \<open>10.0.0.host:port\<close>.\<close>

definition ex_contact :: "int \<Rightarrow> nat \<Rightarrow> int \<Rightarrow> Contact" where
  "ex_contact ident host port =
     \<lparr>Id_c = ident, Addr = \<lparr>IP = [10, 0, 0, host], Port = port, Zone = []\<rparr>\<rparr>"

text \<open>
  Four contacts with identifiers of more than 64 bits. \<open>ex_a\<close> and \<open>ex_b\<close> have
  66 bits, as the target has, and go to bucket 94; \<open>ex_c\<close> has 67 bits and goes to
  bucket 93, \<open>ex_d\<close> has 65 bits and goes to bucket 95. For each of them the address
  and the identifier give the same index. \<open>ex_near\<close> is the table after the four were
  added.
\<close>

definition ex_a :: Contact where
  "ex_a = ex_contact (2 ^ 65 + 2 ^ 64 + 2) 1 65"

definition ex_b :: Contact where
  "ex_b = ex_contact (2 ^ 65 + 1) 2 65"

definition ex_c :: Contact where
  "ex_c = ex_contact (2 ^ 66 + 5) 3 66"

definition ex_d :: Contact where
  "ex_d = ex_contact (2 ^ 64 + 7) 4 64"

definition ex_target :: int where
  "ex_target = 2 ^ 65 + 3"

definition ex_near :: RoutingTable where
  "ex_near =
     \<lparr>owner = ex_owner,
      kBuckets = replicate 93 None @
        [Some \<lparr>contacts = [ex_c], k = 20, lruCache = []\<rparr>,
         Some \<lparr>contacts = [ex_b, ex_a], k = 20, lruCache = []\<rparr>,
         Some \<lparr>contacts = [ex_d], k = 20, lruCache = []\<rparr>] @ replicate 64 None,
      numNeighbors = 0\<rparr>"

text \<open>
  Three contacts with the identifier 5 (3 bits, bucket 157): \<open>ex_old\<close> and
  \<open>ex_moved\<close> at two addresses of bucket 157, and \<open>ex_far\<close> at an address of
  bucket 152.
\<close>

definition ex_old :: Contact where
  "ex_old = ex_contact 5 1 2"

definition ex_moved :: Contact where
  "ex_moved = ex_contact 5 9 2"

definition ex_far :: Contact where
  "ex_far = ex_contact 5 9 7"

text \<open>Twenty contacts with the identifiers 32 to 51 (6 bits, bucket 154), which fill
  a bucket, and one more of the same bucket.\<close>

definition ex_twenty :: "Contact list" where
  "ex_twenty = map (\<lambda>n. ex_contact (32 + int n) n 5) [0..<20]"

definition ex_extra :: Contact where
  "ex_extra = ex_contact 52 20 5"

definition ex_full :: KBucket where
  "ex_full = \<lparr>contacts = rev ex_twenty, k = 20, lruCache = []\<rparr>"

text \<open>The table after \<open>ex_old\<close> and \<open>ex_far\<close> were added: bucket 152 holds
  \<open>ex_far\<close> and bucket 157 holds \<open>ex_old\<close>.\<close>

definition ex_split :: RoutingTable where
  "ex_split =
     \<lparr>owner = ex_owner,
      kBuckets = replicate 152 None @
        [Some \<lparr>contacts = [ex_far], k = 20, lruCache = []\<rparr>] @ replicate 4 None @
        [Some \<lparr>contacts = [ex_old], k = 20, lruCache = []\<rparr>] @ replicate 2 None,
      numNeighbors = 0\<rparr>"

text \<open>\<open>ex_six\<close> has the identifier 6 and goes to bucket 157, as \<open>ex_old\<close> does. The
  tables: \<open>ex_one\<close> after \<open>ex_old\<close> was added, \<open>ex_two\<close> after \<open>ex_six\<close> was added
  to it, and \<open>ex_lost\<close> after \<open>ex_far\<close> was added to the new table.\<close>

definition ex_six :: Contact where
  "ex_six = ex_contact 6 3 2"

definition ex_one :: RoutingTable where
  "ex_one =
     \<lparr>owner = ex_owner,
      kBuckets = replicate 157 None @
        [Some \<lparr>contacts = [ex_old], k = 20, lruCache = []\<rparr>] @ replicate 2 None,
      numNeighbors = 0\<rparr>"

definition ex_two :: RoutingTable where
  "ex_two =
     \<lparr>owner = ex_owner,
      kBuckets = replicate 157 None @
        [Some \<lparr>contacts = [ex_six, ex_old], k = 20, lruCache = []\<rparr>] @ replicate 2 None,
      numNeighbors = 0\<rparr>"

definition ex_lost :: RoutingTable where
  "ex_lost =
     \<lparr>owner = ex_owner,
      kBuckets = replicate 152 None @
        [Some \<lparr>contacts = [ex_far], k = 20, lruCache = []\<rparr>] @ replicate 7 None,
      numNeighbors = 0\<rparr>"

text \<open>\<open>ex_crowded\<close> is the table after the twenty contacts of \<open>ex_twenty\<close> were added
  one by one: its bucket 154 is \<open>ex_full\<close>. \<open>ex_swapped\<close> is \<open>ex_two\<close> with the two
  contacts of bucket 157 in the other order.\<close>

definition ex_crowded :: RoutingTable where
  "ex_crowded =
     \<lparr>owner = ex_owner,
      kBuckets = replicate 154 None @ [Some ex_full] @ replicate 5 None,
      numNeighbors = 0\<rparr>"

definition ex_swapped :: RoutingTable where
  "ex_swapped =
     \<lparr>owner = ex_owner,
      kBuckets = replicate 157 None @
        [Some \<lparr>contacts = [ex_old, ex_six], k = 20, lruCache = []\<rparr>] @ replicate 2 None,
      numNeighbors = 0\<rparr>"

text \<open>An owner whose two methods give the index 157 for every identifier and every
  address, the contact \<open>ex_zero\<close> with the identifier 0, and the table \<open>ex_flat\<close> of
  that owner after \<open>ex_old\<close> was added.\<close>

definition ex_flat_owner :: Node where
  "ex_flat_owner = \<lparr>GetKBucketFromID = (\<lambda>ident. 157), GetKBucketFromAddr = (\<lambda>a. 157)\<rparr>"

definition ex_zero :: Contact where
  "ex_zero = ex_contact 0 7 2"

definition ex_flat :: RoutingTable where
  "ex_flat =
     \<lparr>owner = ex_flat_owner,
      kBuckets = replicate 157 None @
        [Some \<lparr>contacts = [ex_old], k = 20, lruCache = []\<rparr>] @ replicate 2 None,
      numNeighbors = 0\<rparr>"

section \<open>Lists, buckets and their loops\<close>

text \<open>What \<open>getFromList\<close> returns: the first contact with the identifier when there is
  one, the stale root for the identifier 0 when the bucket is not empty and no contact has
  it, and nil otherwise.\<close>

lemma getFromList_from_enumerate:
  "getFromList_from (map (\<lambda>(i, v). (Elem i, Some v)) (enumerate n l) @ rest) c =
     (if Id_c c \<in> Id_c ` set l
      then Some (Elem (n + length (takeWhile (\<lambda>x. Id_c x \<noteq> Id_c c) l)))
      else getFromList_from rest c)"
  by (induction l arbitrary: n) (auto simp: AreEqualContacts_def asContact_def)

lemma getFromList_eq:
  "getFromList b c =
     (if Id_c c \<in> Id_c ` set (contacts b)
      then Some (Elem (length (takeWhile (\<lambda>x. Id_c x \<noteq> Id_c c) (contacts b))))
      else if contacts b \<noteq> [] \<and> Id_c c = 0 then Some StaleRoot else None)"
  using getFromList_from_enumerate [of 0 "contacts b" "[(StaleRoot, None)]" c]
  by (auto simp: getFromList_def elements_def AreEqualContacts_def asContact_def
      zeroContact_def)

lemma getFromList_None:
  "getFromList b c = None \<longleftrightarrow>
     Id_c c \<notin> Id_c ` set (contacts b) \<and> (contacts b = [] \<or> Id_c c \<noteq> 0)"
  by (auto simp: getFromList_eq)

lemma getFromList_StaleRoot:
  "getFromList b c = Some StaleRoot \<longleftrightarrow>
     Id_c c \<notin> Id_c ` set (contacts b) \<and> contacts b \<noteq> [] \<and> Id_c c = 0"
  by (auto simp: getFromList_eq)

lemma getFromList_Elem:
  assumes "getFromList b c = Some (Elem i)"
  shows "i < length (contacts b) \<and> Id_c (contacts b ! i) = Id_c c"
proof -
  let ?P = "\<lambda>x. Id_c x \<noteq> Id_c c"
  from assms have mem: "Id_c c \<in> Id_c ` set (contacts b)"
    and i: "i = length (takeWhile ?P (contacts b))"
    by (auto simp: getFromList_eq split: if_splits)
  from mem have "takeWhile ?P (contacts b) \<noteq> contacts b" by auto
  moreover have "length (takeWhile ?P (contacts b)) \<le> length (contacts b)"
    by (rule length_takeWhile_le)
  moreover have "takeWhile ?P (contacts b) = take (length (takeWhile ?P (contacts b))) (contacts b)"
    by (rule takeWhile_eq_take)
  ultimately have lt: "length (takeWhile ?P (contacts b)) < length (contacts b)"
    by (metis le_neq_implies_less take_all_iff)
  then have "\<not> ?P (contacts b ! length (takeWhile ?P (contacts b)))"
    by (rule nth_length_takeWhile)
  with lt i show ?thesis by simp
qed

lemma getFromList_present:
  "Id_c c \<in> Id_c ` set (contacts b) \<Longrightarrow> \<exists>i. getFromList b c = Some (Elem i)"
  by (simp add: getFromList_eq)

lemma getFromList_cong:
  "Id_c c1 = Id_c c2 \<Longrightarrow> getFromList b c1 = getFromList b c2"
  by (simp add: getFromList_eq)

lemma getFromList_hd:
  "contacts b = x # xs \<Longrightarrow> Id_c x = Id_c c \<Longrightarrow> getFromList b c = Some (Elem 0)"
  by (simp add: getFromList_eq)

lemma elements_length: "length (elements l) = (if l = [] then 0 else Suc (length l))"
  by (simp add: elements_def)

lemma elements_contacts:
  "map (\<lambda>p. asContact (snd p)) (elements l) = (if l = [] then [] else l @ [zeroContact])"
proof -
  have "map (\<lambda>p. asContact (snd p)) (map (\<lambda>(i, v). (Elem i, Some v)) (enumerate n l)) = l"
    for n
    by (induction l arbitrary: n) (simp_all add: asContact_def)
  then show ?thesis by (simp add: elements_def asContact_def)
qed

lemma getAllContacts_loop_eq:
  "index + length es \<le> length arr \<Longrightarrow>
   getAllContacts_loop es index arr =
     Inr (take index arr @ map (\<lambda>p. asContact (snd p)) es @ drop (index + length es) arr)"
proof (induction es index arr rule: getAllContacts_loop.induct)
  case (1 index arr)
  then show ?case by simp
next
  case (2 e v es index arr)
  then have lt: "index < length arr" by simp
  have "take (Suc index) (arr[index := asContact v]) = take index arr @ [asContact v]"
    using lt by (simp add: take_Suc_conv_app_nth)
  moreover have "drop (Suc (index + length es)) (arr[index := asContact v]) =
      drop (Suc (index + length es)) arr"
    by simp
  ultimately show ?case using 2 lt by simp
qed

lemma getAllContacts_loop_panic:
  "length arr < index + length es \<Longrightarrow> index \<le> length arr \<Longrightarrow>
   getAllContacts_loop es index arr = Inl IndexOutOfRange"
  by (induction es index arr rule: getAllContacts_loop.induct) auto

text \<open>Below 20 contacts the round on the stale root writes a zero contact over a zero
  contact; at 20 contacts it writes outside the slice.\<close>

lemma getAllContacts_eq:
  assumes "length (contacts b) < 20"
  shows "getAllContacts b = Inr (contacts b @ replicate (20 - length (contacts b)) zeroContact)"
proof (cases "contacts b = []")
  case True
  then show ?thesis by (simp add: getAllContacts_def elements_def)
next
  case False
  let ?n = "length (contacts b)"
  have "getAllContacts b =
      Inr (take 0 (replicate 20 zeroContact) @ map (\<lambda>p. asContact (snd p)) (elements (contacts b)) @
           drop (0 + length (elements (contacts b))) (replicate 20 zeroContact))"
    unfolding getAllContacts_def using assms False
    by (intro getAllContacts_loop_eq) (simp add: elements_length)
  also have "\<dots> = Inr (contacts b @ [zeroContact] @ replicate (19 - ?n) zeroContact)"
    using False by (simp add: elements_contacts elements_length)
  also have "[zeroContact] @ replicate (19 - ?n) zeroContact = replicate (20 - ?n) zeroContact"
    using assms by (simp add: Suc_diff_le flip: replicate_Suc)
  finally show ?thesis by simp
qed

lemma getAllContacts_panic:
  "20 \<le> length (contacts b) \<Longrightarrow> getAllContacts b = Inl IndexOutOfRange"
  unfolding getAllContacts_def
  by (rule getAllContacts_loop_panic) (auto simp: elements_length)

lemma getAllContacts_loop_length:
  "getAllContacts_loop es index arr = Inr cs \<Longrightarrow> length cs = length arr"
  by (induction es index arr rule: getAllContacts_loop.induct) (auto split: if_splits)

lemma getAllContacts_ptr_length:
  "getAllContacts_ptr p = Inr cs \<Longrightarrow> length cs = 20"
  by (auto simp: getAllContacts_ptr_def getAllContacts_def
      dest: getAllContacts_loop_length split: option.splits)

lemma copy_slice_length: "length (copy_slice dst src) = length dst"
  by (simp add: copy_slice_def)

lemma take_drop_mset:
  "i < length l \<Longrightarrow> add_mset (l ! i) (mset (take i l) + mset (drop (Suc i) l)) = mset l"
proof -
  assume "i < length l"
  then have "l = take i l @ l ! i # drop (Suc i) l" by (rule id_take_nth_drop)
  then have "mset l = mset (take i l) + add_mset (l ! i) (mset (drop (Suc i) l))"
    by (metis mset.simps(2) mset_append)
  then show ?thesis by simp
qed

lemma MoveToFront_mset: "mset (MoveToFront l e) = mset l"
  by (cases e) (simp_all add: MoveToFront_def take_drop_mset)

lemma MoveToFront_length: "length (MoveToFront l e) = length l"
  by (metis MoveToFront_mset size_mset)

lemma MoveToFront_set: "set (MoveToFront l e) = set l"
  by (metis MoveToFront_mset set_mset_mset)

lemma MoveToFront_distinct_map: "distinct (map f (MoveToFront l e)) = distinct (map f l)"
proof -
  have "mset (map f (MoveToFront l e)) = mset (map f l)"
    by (simp add: MoveToFront_mset)
  then show ?thesis by (rule mset_eq_imp_distinct_iff)
qed

lemma Remove_set: "set (Remove l e) \<subseteq> set l"
  by (cases e) (auto simp: Remove_def dest: in_set_takeD in_set_dropD)

lemma Remove_length: "length (Remove l e) \<le> length l"
  by (cases e) (auto simp: Remove_def)

lemma Remove_distinct_map: "distinct (map f l) \<Longrightarrow> distinct (map f (Remove l e))"
proof (cases e)
  case (Elem i)
  assume d: "distinct (map f l)"
  show ?thesis
  proof (cases "i < length l")
    case True
    then have "l = take i l @ l ! i # drop (Suc i) l" by (rule id_take_nth_drop)
    then have "map f l = map f (take i l) @ f (l ! i) # map f (drop (Suc i) l)"
      by (metis list.simps(9) map_append)
    with d have "distinct (map f (take i l) @ f (l ! i) # map f (drop (Suc i) l))" by simp
    then have "distinct (map f (take i l) @ map f (drop (Suc i) l))" by auto
    then show ?thesis using True Elem by (simp add: Remove_def)
  next
    case False
    then show ?thesis using d Elem by (simp add: Remove_def)
  qed
next
  case StaleRoot
  assume "distinct (map f l)"
  then show ?thesis using StaleRoot by (simp add: Remove_def)
qed

lemma sort_insert_mset: "mset (sort_insert lt x ys) = add_mset x (mset ys)"
  by (induction ys) auto

lemma sort_Slice_mset: "mset (sort_Slice xs lt) = mset xs"
  by (induction xs) (auto simp: sort_Slice_def sort_insert_mset)

lemma sort_Slice_length: "length (sort_Slice xs lt) = length xs"
  by (metis sort_Slice_mset size_mset)

lemma sort_Slice_set: "set (sort_Slice xs lt) = set xs"
  by (metis sort_Slice_mset set_mset_mset)

lemma sort_insert_set: "set (sort_insert lt x ys) = insert x (set ys)"
  by (induction ys) auto

lemma sort_insert_sorted_key:
  assumes "\<And>a b. lt a b \<longleftrightarrow> f a < f b" and "sorted (map f ys)"
  shows "sorted (map (f :: 'a \<Rightarrow> int) (sort_insert lt x ys))"
  using assms(2)
proof (induction ys)
  case Nil
  then show ?case by simp
next
  case (Cons y ys)
  show ?case
  proof (cases "lt y x")
    case True
    then have "f y \<le> f x" using assms(1) by simp
    then show ?thesis
      using Cons True by (auto simp: sort_insert_set)
  next
    case False
    then have "f x \<le> f y" using assms(1) by simp
    then show ?thesis using Cons.prems False by auto
  qed
qed

lemma sort_Slice_sorted_key:
  assumes "\<And>a b. lt a b \<longleftrightarrow> f a < f b"
  shows "sorted (map (f :: 'a \<Rightarrow> int) (sort_Slice xs lt))"
proof (induction xs)
  case Nil
  then show ?case by (simp add: sort_Slice_def)
next
  case (Cons x xs)
  then have "sorted (map f (sort_insert lt x (sort_Slice xs lt)))"
    using assms by (intro sort_insert_sorted_key)
  then show ?case by (simp add: sort_Slice_def)
qed

text \<open>Where the comparison separates every two distinct entries, every permutation that
  is in order is the model's result: the order that the library leaves ties in does not
  show.\<close>

lemma sorted_key_unique:
  assumes "mset ys = mset zs" and "sorted (map f ys)" and "sorted (map f zs)"
    and "inj_on f (set zs)"
  shows "ys = zs"
proof -
  have "mset (map f ys) = mset (map f zs)" using assms(1) by simp
  then have "map f ys = map f zs"
    using assms(2,3) by (metis properties_for_sort)
  moreover have "set ys = set zs" using assms(1) by (rule mset_eq_setD)
  ultimately show ?thesis using assms(4) by (intro map_inj_on [of f]) auto
qed

lemma sort_Slice_any_order:
  assumes "\<And>a b. lt a b \<longleftrightarrow> f a < f b" and "inj_on f (set xs)"
    and "mset ys = mset xs" and "sorted (map (f :: 'a \<Rightarrow> int) ys)"
  shows "ys = sort_Slice xs lt"
proof (rule sorted_key_unique [of _ _ f])
  show "mset ys = mset (sort_Slice xs lt)" using assms(3) by (simp add: sort_Slice_mset)
  show "sorted (map f ys)" by (rule assms(4))
  show "sorted (map f (sort_Slice xs lt))" using assms(1) by (rule sort_Slice_sorted_key)
  show "inj_on f (set (sort_Slice xs lt))" using assms(2) by (simp add: sort_Slice_set)
qed

lemma addContact_lruCache: "lruCache (fst (addContact b c)) = lruCache b"
  by (simp add: addContact_def split: option.splits)

lemma addContact_k: "k (fst (addContact b c)) = k b"
  by (simp add: addContact_def split: option.splits)

lemma removeContact_lruCache: "lruCache (fst (removeContact b c)) = lruCache b"
  by (simp add: removeContact_def split: option.splits)

lemma removeContact_k: "k (fst (removeContact b c)) = k b"
  by (simp add: removeContact_def split: option.splits)

lemma addContact_length:
  "k b = 20 \<Longrightarrow> length (contacts b) \<le> 20 \<Longrightarrow> length (contacts (fst (addContact b c))) \<le> 20"
  by (auto simp: addContact_def PushFront_def MoveToFront_length split: option.splits)

lemma addContact_distinct:
  "distinct (map Id_c (contacts b)) \<Longrightarrow> distinct (map Id_c (contacts (fst (addContact b c))))"
  by (auto simp: addContact_def PushFront_def MoveToFront_distinct_map getFromList_None
      split: option.splits)

lemma addContact_set:
  "set (contacts (fst (addContact b c))) \<subseteq> insert c (set (contacts b))"
  by (auto simp: addContact_def PushFront_def MoveToFront_set split: option.splits)

lemma removeContact_length:
  "length (contacts (fst (removeContact b c))) \<le> length (contacts b)"
  by (auto simp: removeContact_def Remove_length split: option.splits)

lemma removeContact_distinct:
  "distinct (map Id_c (contacts b)) \<Longrightarrow> distinct (map Id_c (contacts (fst (removeContact b c))))"
  by (auto simp: removeContact_def Remove_distinct_map split: option.splits)

lemma removeContact_set:
  "set (contacts (fst (removeContact b c))) \<subseteq> set (contacts b)"
  using Remove_set by (fastforce simp: removeContact_def split: option.splits)

lemma set_buckets: "set (buckets self) = {b. Some b \<in> set (kBuckets self)}"
  by (auto simp: buckets_def split: option.splits)

section \<open>The invariant of the buckets\<close>

lemma bucket_inv_New: "bucket_inv (NewKBucket 20)"
  by (simp add: bucket_inv_def NewKBucket_def)

lemma bucket_inv_addContact: "bucket_inv b \<Longrightarrow> bucket_inv (fst (addContact b c))"
  by (simp add: bucket_inv_def addContact_lruCache addContact_k addContact_length addContact_distinct)

lemma bucket_inv_removeContact: "bucket_inv b \<Longrightarrow> bucket_inv (fst (removeContact b c))"
  using removeContact_length [of b c]
  by (simp add: bucket_inv_def removeContact_lruCache removeContact_k removeContact_distinct)

lemma table_inv_iff:
  "table_inv self \<longleftrightarrow> (\<forall>b. Some b \<in> set (kBuckets self) \<longrightarrow> bucket_inv b)"
  by (simp add: table_inv_def list_all_iff set_buckets)

lemma table_inv_New: "table_inv (NewRoutingTable own)"
  by (simp add: table_inv_iff NewRoutingTable_def)

lemma table_inv_update:
  assumes "table_inv self" and "bucket_inv b"
  shows "table_inv (self\<lparr>kBuckets := (kBuckets self)[i := Some b]\<rparr>)"
  using assms set_update_subset_insert [of "kBuckets self" i "Some b"]
  by (auto simp: table_inv_iff)

lemma bucketAt_Inr:
  "bucketAt self i = Inr p \<Longrightarrow> 0 \<le> i \<and> nat i < length (kBuckets self) \<and> kBuckets self ! nat i = p"
  by (auto simp: bucketAt_def split: if_splits)

lemma bucketAt_Some:
  "bucketAt self i = Inr (Some b) \<Longrightarrow> Some b \<in> set (kBuckets self)"
  by (metis bucketAt_Inr nth_mem)

lemma add_cases:
  assumes "add self c = Inr self'"
  obtains slot where "bucketAt self (GetKBucketFromAddr (owner self) (Addr c)) = Inr slot"
    and "self' = self\<lparr>kBuckets := (kBuckets self)[nat (GetKBucketFromAddr (owner self) (Addr c)) :=
           Some (fst (addContact (case slot of None \<Rightarrow> NewKBucket 20 | Some b \<Rightarrow> b) c))]\<rparr>"
  using assms by (auto simp: add_def Let_def split: sum.splits)

lemma remove_rt_cases:
  assumes "remove_rt self c = Inr self'"
  obtains b where "bucketAt self (GetKBucketFromAddr (owner self) (Addr c)) = Inr (Some b)"
    and "self' = self\<lparr>kBuckets := (kBuckets self)[nat (GetKBucketFromAddr (owner self) (Addr c)) :=
           Some (fst (removeContact b c))]\<rparr>"
  using assms by (auto simp: remove_rt_def Let_def split: sum.splits option.splits)

lemma table_inv_add:
  assumes "add self c = Inr self'" and "table_inv self"
  shows "table_inv self'"
proof -
  from assms(1) obtain slot where
    at: "bucketAt self (GetKBucketFromAddr (owner self) (Addr c)) = Inr slot" and
    eq: "self' = self\<lparr>kBuckets := (kBuckets self)[nat (GetKBucketFromAddr (owner self) (Addr c)) :=
           Some (fst (addContact (case slot of None \<Rightarrow> NewKBucket 20 | Some b \<Rightarrow> b) c))]\<rparr>"
    by (rule add_cases)
  have "bucket_inv (case slot of None \<Rightarrow> NewKBucket 20 | Some b \<Rightarrow> b)"
    using at assms(2) by (auto simp: table_inv_iff bucket_inv_New dest: bucketAt_Some split: option.splits)
  then show ?thesis
    unfolding eq using assms(2) by (intro table_inv_update bucket_inv_addContact)
qed

lemma table_inv_remove_rt:
  assumes "remove_rt self c = Inr self'" and "table_inv self"
  shows "table_inv self'"
proof -
  from assms(1) obtain b where
    at: "bucketAt self (GetKBucketFromAddr (owner self) (Addr c)) = Inr (Some b)" and
    eq: "self' = self\<lparr>kBuckets := (kBuckets self)[nat (GetKBucketFromAddr (owner self) (Addr c)) :=
           Some (fst (removeContact b c))]\<rparr>"
    by (rule remove_rt_cases)
  have "bucket_inv b"
    using at assms(2) by (auto simp: table_inv_iff dest: bucketAt_Some)
  then show ?thesis
    unfolding eq using assms(2) by (intro table_inv_update bucket_inv_removeContact)
qed

lemma table_inv_clear: "table_inv (clear self)"
  by (simp add: table_inv_iff clear_def)

lemma table_inv_apply_op:
  "apply_op self oper = Inr self' \<Longrightarrow> table_inv self \<Longrightarrow> table_inv self'"
  by (cases oper)
    (auto simp: table_inv_clear dest: table_inv_add table_inv_remove_rt split: sum.splits)

lemma table_inv_run_ops:
  "run_ops self opers = Inr self' \<Longrightarrow> table_inv self \<Longrightarrow> table_inv self'"
  by (induction opers arbitrary: self) (auto dest: table_inv_apply_op split: sum.splits)

lemma table_inv_reachable:
  "run_ops (NewRoutingTable own) opers = Inr self \<Longrightarrow> table_inv self"
  by (erule table_inv_run_ops) (rule table_inv_New)

lemma owner_apply_op: "apply_op self oper = Inr self' \<Longrightarrow> owner self' = owner self"
  by (cases oper)
    (auto simp: clear_def elim!: add_cases remove_rt_cases split: sum.splits)

lemma owner_run_ops: "run_ops self opers = Inr self' \<Longrightarrow> owner self' = owner self"
  by (induction opers arbitrary: self) (auto dest: owner_apply_op split: sum.splits)

section \<open>Contacts and the slots they are routed to\<close>

lemma distinct_concat_nth:
  assumes "\<And>i. i < length xss \<Longrightarrow> distinct (xss ! i)"
    and "\<And>i j x. i < length xss \<Longrightarrow> j < length xss \<Longrightarrow> x \<in> set (xss ! i) \<Longrightarrow> x \<in> set (xss ! j) \<Longrightarrow> i = j"
  shows "distinct (concat xss)"
  using assms
proof (induction xss)
  case Nil
  then show ?case by simp
next
  case (Cons xs xss)
  have d0: "distinct xs" using Cons.prems(1) [of 0] by simp
  have dr: "distinct (concat xss)"
  proof (rule Cons.IH)
    fix i assume "i < length xss"
    then show "distinct (xss ! i)" using Cons.prems(1) [of "Suc i"] by simp
  next
    fix i j x
    assume "i < length xss" "j < length xss" "x \<in> set (xss ! i)" "x \<in> set (xss ! j)"
    then show "i = j" using Cons.prems(2) [of "Suc i" "Suc j" x] by simp
  qed
  have disj: "set xs \<inter> set (concat xss) = {}"
  proof (rule ccontr)
    assume "set xs \<inter> set (concat xss) \<noteq> {}"
    then obtain x ys where x: "x \<in> set xs" "ys \<in> set xss" "x \<in> set ys" by auto
    then obtain j where j: "j < length xss" "xss ! j = ys" by (auto simp: in_set_conv_nth)
    have "0 = Suc j" using Cons.prems(2) [of 0 "Suc j" x] x j by simp
    then show False by simp
  qed
  show ?case using d0 dr disj by simp
qed

lemma routed_iff:
  "routed self \<longleftrightarrow>
     (\<forall>i b c. i < length (kBuckets self) \<longrightarrow> kBuckets self ! i = Some b \<longrightarrow>
        c \<in> set (contacts b) \<longrightarrow> GetKBucketFromID (owner self) (Id_c c) = int i)"
  by (fastforce simp: routed_def list_all_iff in_set_enumerate_eq split: option.splits)

lemma routed_New: "routed (NewRoutingTable own)"
  by (simp add: routed_iff NewRoutingTable_def)

lemma routed_update:
  assumes "routed self" and "\<And>c. c \<in> set (contacts b) \<Longrightarrow> GetKBucketFromID (owner self) (Id_c c) = int i"
  shows "routed (self\<lparr>kBuckets := (kBuckets self)[i := Some b]\<rparr>)"
  unfolding routed_iff
proof (intro allI impI)
  fix j b' c
  assume j: "j < length (kBuckets (self\<lparr>kBuckets := (kBuckets self)[i := Some b]\<rparr>))"
    and b': "kBuckets (self\<lparr>kBuckets := (kBuckets self)[i := Some b]\<rparr>) ! j = Some b'"
    and c: "c \<in> set (contacts b')"
  show "GetKBucketFromID (owner (self\<lparr>kBuckets := (kBuckets self)[i := Some b]\<rparr>)) (Id_c c) = int j"
  proof (cases "j = i")
    case True
    then have "b' = b" using j b' by simp
    then show ?thesis using c assms(2) True by simp
  next
    case False
    then have "kBuckets self ! j = Some b'" using b' by simp
    then show ?thesis using assms(1) j c by (auto simp: routed_iff)
  qed
qed

lemma routed_add:
  assumes "add self c = Inr self'" and "routed self"
    and "GetKBucketFromAddr (owner self) (Addr c) = GetKBucketFromID (owner self) (Id_c c)"
  shows "routed self'"
proof -
  let ?i = "GetKBucketFromAddr (owner self) (Addr c)"
  from assms(1) obtain slot where
    at: "bucketAt self ?i = Inr slot" and
    eq: "self' = self\<lparr>kBuckets := (kBuckets self)[nat ?i :=
           Some (fst (addContact (case slot of None \<Rightarrow> NewKBucket 20 | Some b \<Rightarrow> b) c))]\<rparr>"
    by (rule add_cases)
  from at have i: "0 \<le> ?i" "nat ?i < length (kBuckets self)" "kBuckets self ! nat ?i = slot"
    using bucketAt_Inr by blast+
  have old: "GetKBucketFromID (owner self) (Id_c d) = int (nat ?i)"
    if "d \<in> set (contacts (case slot of None \<Rightarrow> NewKBucket 20 | Some b \<Rightarrow> b))" for d
    using that i assms(2) by (auto simp: routed_iff NewKBucket_def split: option.splits)
  have "GetKBucketFromID (owner self) (Id_c d) = int (nat ?i)"
    if "d \<in> set (contacts (fst (addContact (case slot of None \<Rightarrow> NewKBucket 20 | Some b \<Rightarrow> b) c)))" for d
    using that addContact_set [of "case slot of None \<Rightarrow> NewKBucket 20 | Some b \<Rightarrow> b" c] old assms(3) i(1)
    by auto
  then show ?thesis unfolding eq using assms(2) by (intro routed_update)
qed

lemma routed_remove_rt:
  assumes "remove_rt self c = Inr self'" and "routed self"
  shows "routed self'"
proof -
  let ?i = "GetKBucketFromAddr (owner self) (Addr c)"
  from assms(1) obtain b where
    at: "bucketAt self ?i = Inr (Some b)" and
    eq: "self' = self\<lparr>kBuckets := (kBuckets self)[nat ?i := Some (fst (removeContact b c))]\<rparr>"
    by (rule remove_rt_cases)
  from at have i: "0 \<le> ?i" "nat ?i < length (kBuckets self)" "kBuckets self ! nat ?i = Some b"
    using bucketAt_Inr by blast+
  have "GetKBucketFromID (owner self) (Id_c d) = int (nat ?i)"
    if "d \<in> set (contacts (fst (removeContact b c)))" for d
    using that removeContact_set [of b c] i assms(2) by (auto simp: routed_iff)
  then show ?thesis unfolding eq using assms(2) by (intro routed_update)
qed

lemma routed_clear: "routed (clear self)"
  by (simp add: routed_iff clear_def)

lemma routed_apply_op:
  assumes "apply_op self oper = Inr self'" and "routed self"
    and "\<And>c. oper = OpAdd c \<Longrightarrow> GetKBucketFromAddr (owner self) (Addr c) = GetKBucketFromID (owner self) (Id_c c)"
  shows "routed self'"
  using assms
  by (cases oper) (auto simp: routed_clear dest: routed_add routed_remove_rt split: sum.splits)

lemma routed_run_ops:
  assumes "run_ops self opers = Inr self'" and "routed self"
    and "\<And>c. OpAdd c \<in> set opers \<Longrightarrow> GetKBucketFromAddr (owner self) (Addr c) = GetKBucketFromID (owner self) (Id_c c)"
  shows "routed self'"
  using assms
proof (induction opers arbitrary: self)
  case Nil
  then show ?case by simp
next
  case (Cons oper opers)
  from Cons.prems(1) obtain mid where
    step: "apply_op self oper = Inr mid" and rest: "run_ops mid opers = Inr self'"
    by (auto split: sum.splits)
  have own: "owner mid = owner self" using step by (rule owner_apply_op)
  have "routed mid" using step Cons.prems(2,3) by (auto intro: routed_apply_op)
  then show ?case using rest Cons.prems(3) own by (intro Cons.IH [of mid]) auto
qed

lemma stored_distinct:
  assumes "table_inv self" and "routed self"
  shows "distinct (map Id_c (stored self))"
proof -
  let ?f = "\<lambda>p. map Id_c (case p of None \<Rightarrow> [] | Some b \<Rightarrow> contacts b)"
  have eq: "map Id_c (stored self) = concat (map ?f (kBuckets self))"
    by (simp add: stored_def map_concat comp_def)
  have "distinct (concat (map ?f (kBuckets self)))"
  proof (rule distinct_concat_nth)
    fix i assume "i < length (map ?f (kBuckets self))"
    then show "distinct (map ?f (kBuckets self) ! i)"
      using assms(1) by (auto simp: table_inv_iff bucket_inv_def split: option.splits dest: nth_mem)
  next
    fix i j x
    assume "i < length (map ?f (kBuckets self))" "j < length (map ?f (kBuckets self))"
      "x \<in> set (map ?f (kBuckets self) ! i)" "x \<in> set (map ?f (kBuckets self) ! j)"
    then have ij: "i < length (kBuckets self)" "j < length (kBuckets self)"
      and xi: "x \<in> set (?f (kBuckets self ! i))" and xj: "x \<in> set (?f (kBuckets self ! j))"
      by simp_all
    from xi obtain b1 c1 where
      a: "kBuckets self ! i = Some b1" "c1 \<in> set (contacts b1)" "x = Id_c c1"
      by (cases "kBuckets self ! i") auto
    from xj obtain b2 c2 where
      b: "kBuckets self ! j = Some b2" "c2 \<in> set (contacts b2)" "x = Id_c c2"
      by (cases "kBuckets self ! j") auto
    have "GetKBucketFromID (owner self) x = int i"
      using assms(2) a ij unfolding routed_iff by blast
    moreover have "GetKBucketFromID (owner self) x = int j"
      using assms(2) b ij unfolding routed_iff by blast
    ultimately show "i = j" by simp
  qed
  then show ?thesis by (simp add: eq)
qed

section \<open>The example tables are reached by runs\<close>

lemma numNeighbors_apply_op: "apply_op self oper = Inr self' \<Longrightarrow> numNeighbors self' = numNeighbors self"
  by (cases oper)
    (auto simp: clear_def elim!: add_cases remove_rt_cases split: sum.splits)

lemma numNeighbors_run_ops: "run_ops self opers = Inr self' \<Longrightarrow> numNeighbors self' = numNeighbors self"
  by (induction opers arbitrary: self) (auto dest: numNeighbors_apply_op split: sum.splits)

lemma run_ops_eqI:
  assumes "map_sum id kBuckets (run_ops self opers) = Inr kb"
  shows "run_ops self opers = Inr (self\<lparr>kBuckets := kb\<rparr>)"
proof -
  from assms obtain t where t: "run_ops self opers = Inr t" and kb: "kBuckets t = kb"
    by (cases "run_ops self opers") auto
  have "owner t = owner self" "numNeighbors t = numNeighbors self"
    using t by (rule owner_run_ops, rule numNeighbors_run_ops)
  then have "t = self\<lparr>kBuckets := kb\<rparr>" using kb by simp
  then show ?thesis using t by simp
qed

lemma ex_near_reachable:
  "run_ops (NewRoutingTable ex_owner) [OpAdd ex_a, OpAdd ex_b, OpAdd ex_c, OpAdd ex_d] = Inr ex_near"
proof -
  have "map_sum id kBuckets
      (run_ops (NewRoutingTable ex_owner) [OpAdd ex_a, OpAdd ex_b, OpAdd ex_c, OpAdd ex_d])
    = Inr (kBuckets ex_near)"
    by code_simp
  then have "run_ops (NewRoutingTable ex_owner) [OpAdd ex_a, OpAdd ex_b, OpAdd ex_c, OpAdd ex_d]
    = Inr ((NewRoutingTable ex_owner)\<lparr>kBuckets := kBuckets ex_near\<rparr>)"
    by (rule run_ops_eqI)
  then show ?thesis by (simp add: NewRoutingTable_def ex_near_def)
qed

section \<open>The replacement cache\<close>

text \<open>
  Claim C10. A bucket's replacement cache \<open>lruCache\<close> is empty when \<open>NewKBucket\<close>
  builds the bucket. \<open>addContact\<close> and \<open>removeContact\<close> return it as they found it,
  and no result of \<open>addContact\<close>, \<open>removeContact\<close>, \<open>getAllContacts\<close> or
  \<open>getFromList\<close> depends on what it holds. So in every table that a run of operations
  reaches from \<open>NewRoutingTable\<close>, the cache of every bucket is empty.
\<close>

theorem lruCache_never_used:
  "lruCache (NewKBucket n) = [] \<and>
   lruCache (fst (addContact b c)) = lruCache b \<and>
   lruCache (fst (removeContact b c)) = lruCache b \<and>
   addContact (b\<lparr>lruCache := l\<rparr>) c = (fst (addContact b c)\<lparr>lruCache := l\<rparr>, snd (addContact b c)) \<and>
   removeContact (b\<lparr>lruCache := l\<rparr>) c =
     (fst (removeContact b c)\<lparr>lruCache := l\<rparr>, snd (removeContact b c)) \<and>
   getAllContacts (b\<lparr>lruCache := l\<rparr>) = getAllContacts b \<and>
   getFromList (b\<lparr>lruCache := l\<rparr>) c = getFromList b c \<and>
   (run_ops (NewRoutingTable own) opers = Inr self \<longrightarrow> (\<forall>b' \<in> set (buckets self). lruCache b' = []))"
proof -
  have "\<forall>b' \<in> set (buckets self). lruCache b' = []"
    if "run_ops (NewRoutingTable own) opers = Inr self"
    using table_inv_reachable [OF that]
    by (simp add: table_inv_def list_all_iff bucket_inv_def)
  moreover have "addContact (b\<lparr>lruCache := l\<rparr>) c = (fst (addContact b c)\<lparr>lruCache := l\<rparr>, snd (addContact b c))"
    by (simp add: addContact_def getFromList_def split: option.splits)
  moreover have "removeContact (b\<lparr>lruCache := l\<rparr>) c =
     (fst (removeContact b c)\<lparr>lruCache := l\<rparr>, snd (removeContact b c))"
    by (simp add: removeContact_def getFromList_def split: option.splits)
  ultimately show ?thesis
    by (simp add: NewKBucket_def addContact_lruCache removeContact_lruCache getAllContacts_def
        getFromList_def)
qed

theorem lruCache_never_used_witness:
  "run_ops (NewRoutingTable ex_owner) [OpAdd ex_a, OpAdd ex_b, OpAdd ex_c, OpAdd ex_d] = Inr ex_near \<and>
   buckets ex_near =
     [\<lparr>contacts = [ex_c], k = 20, lruCache = []\<rparr>,
      \<lparr>contacts = [ex_b, ex_a], k = 20, lruCache = []\<rparr>,
      \<lparr>contacts = [ex_d], k = 20, lruCache = []\<rparr>] \<and>
   list_all (\<lambda>b. lruCache b = []) (buckets ex_near)"
proof -
  have b: "buckets ex_near =
     [\<lparr>contacts = [ex_c], k = 20, lruCache = []\<rparr>,
      \<lparr>contacts = [ex_b, ex_a], k = 20, lruCache = []\<rparr>,
      \<lparr>contacts = [ex_d], k = 20, lruCache = []\<rparr>]"
    by code_simp
  from lruCache_never_used [of 20 "NewKBucket 20" ex_a "[]" ex_owner
      "[OpAdd ex_a, OpAdd ex_b, OpAdd ex_c, OpAdd ex_d]" ex_near]
  have "\<forall>b' \<in> set (buckets ex_near). lruCache b' = []"
    using ex_near_reachable by blast
  then show ?thesis using ex_near_reachable b by (simp add: list_all_iff)
qed

section \<open>Bucket sizes and identifiers\<close>

lemma ex_split_reachable:
  "run_ops (NewRoutingTable ex_owner) [OpAdd ex_old, OpAdd ex_far] = Inr ex_split"
proof -
  have "map_sum id kBuckets (run_ops (NewRoutingTable ex_owner) [OpAdd ex_old, OpAdd ex_far])
    = Inr (kBuckets ex_split)"
    by code_simp
  then have "run_ops (NewRoutingTable ex_owner) [OpAdd ex_old, OpAdd ex_far]
    = Inr ((NewRoutingTable ex_owner)\<lparr>kBuckets := kBuckets ex_split\<rparr>)"
    by (rule run_ops_eqI)
  then show ?thesis by (simp add: NewRoutingTable_def ex_split_def)
qed

text \<open>
  Claim C3, as amended. In every table that a run of operations reaches from
  \<open>NewRoutingTable\<close>, every bucket holds at most 20 contacts and no two contacts of one
  bucket have the same identifier. \<open>add\<close> takes the bucket index from the contact's
  address: no two contacts of the whole table have the same identifier when, for every
  contact that was added, \<open>GetKBucketFromAddr\<close> of its address is
  \<open>GetKBucketFromID\<close> of its identifier.
\<close>

theorem buckets_bounded_ids_distinct:
  assumes "run_ops (NewRoutingTable own) opers = Inr self"
  shows "(\<forall>b \<in> set (buckets self). length (contacts b) \<le> 20 \<and> distinct (map Id_c (contacts b))) \<and>
    ((\<forall>c. OpAdd c \<in> set opers \<longrightarrow>
        GetKBucketFromAddr own (Addr c) = GetKBucketFromID own (Id_c c)) \<longrightarrow>
     distinct (map Id_c (stored self)))"
proof (intro conjI impI)
  have inv: "table_inv self" using assms by (rule table_inv_reachable)
  then show "\<forall>b \<in> set (buckets self). length (contacts b) \<le> 20 \<and> distinct (map Id_c (contacts b))"
    by (simp add: table_inv_def list_all_iff bucket_inv_def)
  assume r: "\<forall>c. OpAdd c \<in> set opers \<longrightarrow>
        GetKBucketFromAddr own (Addr c) = GetKBucketFromID own (Id_c c)"
  have "routed self"
    using assms
  proof (rule routed_run_ops)
    show "routed (NewRoutingTable own)" by (rule routed_New)
  next
    fix c assume "OpAdd c \<in> set opers"
    then show "GetKBucketFromAddr (owner (NewRoutingTable own)) (Addr c) =
      GetKBucketFromID (owner (NewRoutingTable own)) (Id_c c)"
      using r by (simp add: NewRoutingTable_def)
  qed
  with inv show "distinct (map Id_c (stored self))" by (rule stored_distinct)
qed

theorem buckets_bounded_ids_distinct_witness:
  "run_ops (NewRoutingTable ex_owner) [OpAdd ex_a, OpAdd ex_b, OpAdd ex_c, OpAdd ex_d] = Inr ex_near \<and>
   list_all (\<lambda>c. GetKBucketFromAddr ex_owner (Addr c) = GetKBucketFromID ex_owner (Id_c c))
     [ex_a, ex_b, ex_c, ex_d] \<and>
   list_all (\<lambda>b. length (contacts b) \<le> 20 \<and> distinct (map Id_c (contacts b))) (buckets ex_near) \<and>
   stored ex_near = [ex_c, ex_b, ex_a, ex_d] \<and>
   distinct (map Id_c (stored ex_near))"
proof -
  have r: "list_all (\<lambda>c. GetKBucketFromAddr ex_owner (Addr c) = GetKBucketFromID ex_owner (Id_c c))
     [ex_a, ex_b, ex_c, ex_d]"
    by code_simp
  have s: "stored ex_near = [ex_c, ex_b, ex_a, ex_d]"
    by code_simp
  have "(\<forall>b \<in> set (buckets ex_near). length (contacts b) \<le> 20 \<and> distinct (map Id_c (contacts b))) \<and>
    distinct (map Id_c (stored ex_near))"
    using buckets_bounded_ids_distinct [OF ex_near_reachable] r by simp
  then show ?thesis using ex_near_reachable r s by (simp add: list_all_iff)
qed

text \<open>
  Claim C3 as stated fails: \<open>ex_old\<close> and \<open>ex_far\<close> have the identifier 5 and
  addresses of two buckets, and after both are added the table stores the identifier twice,
  in bucket 152 and in bucket 157.
\<close>

theorem ids_across_buckets_counterexample:
  "run_ops (NewRoutingTable ex_owner) [OpAdd ex_old, OpAdd ex_far] = Inr ex_split \<and>
   stored ex_split = [ex_far, ex_old] \<and>
   Id_c ex_far = Id_c ex_old \<and>
   \<not> distinct (map Id_c (stored ex_split))"
proof -
  have "stored ex_split = [ex_far, ex_old]" by code_simp
  moreover have "Id_c ex_far = Id_c ex_old" by code_simp
  ultimately show ?thesis using ex_split_reachable by simp
qed

section \<open>Lookup after add\<close>

lemma add_eqI:
  assumes "map_sum id kBuckets (add self c) = Inr kb"
  shows "add self c = Inr (self\<lparr>kBuckets := kb\<rparr>)"
proof -
  have "map_sum id kBuckets (run_ops self [OpAdd c]) = Inr kb"
    using assms by (cases "add self c") auto
  then have "run_ops self [OpAdd c] = Inr (self\<lparr>kBuckets := kb\<rparr>)"
    by (rule run_ops_eqI)
  then show ?thesis by (cases "add self c") auto
qed

lemma ex_one_add: "add (NewRoutingTable ex_owner) ex_old = Inr ex_one"
proof -
  have "map_sum id kBuckets (add (NewRoutingTable ex_owner) ex_old) = Inr (kBuckets ex_one)"
    by code_simp
  then have "add (NewRoutingTable ex_owner) ex_old
    = Inr ((NewRoutingTable ex_owner)\<lparr>kBuckets := kBuckets ex_one\<rparr>)"
    by (rule add_eqI)
  then show ?thesis by (simp add: NewRoutingTable_def ex_one_def)
qed

lemma ex_one_add_moved: "add ex_one ex_moved = Inr ex_one"
proof -
  have "map_sum id kBuckets (add ex_one ex_moved) = Inr (kBuckets ex_one)"
    by code_simp
  then have "add ex_one ex_moved = Inr (ex_one\<lparr>kBuckets := kBuckets ex_one\<rparr>)"
    by (rule add_eqI)
  then show ?thesis by simp
qed

lemma ex_two_add: "add ex_one ex_six = Inr ex_two"
proof -
  have "map_sum id kBuckets (add ex_one ex_six) = Inr (kBuckets ex_two)"
    by code_simp
  then have "add ex_one ex_six = Inr (ex_one\<lparr>kBuckets := kBuckets ex_two\<rparr>)"
    by (rule add_eqI)
  then show ?thesis by (simp add: ex_one_def ex_two_def)
qed

lemma ex_lost_add: "add (NewRoutingTable ex_owner) ex_far = Inr ex_lost"
proof -
  have "map_sum id kBuckets (add (NewRoutingTable ex_owner) ex_far) = Inr (kBuckets ex_lost)"
    by code_simp
  then have "add (NewRoutingTable ex_owner) ex_far
    = Inr ((NewRoutingTable ex_owner)\<lparr>kBuckets := kBuckets ex_lost\<rparr>)"
    by (rule add_eqI)
  then show ?thesis by (simp add: NewRoutingTable_def ex_lost_def)
qed

lemma ContactFromID_eq:
  assumes "bucketAt table (GetKBucketFromID (owner table) ident) = Inr slot"
  shows "ContactFromID table ident =
    (case slot of None \<Rightarrow> Inr None
     | Some b \<Rightarrow> (case getFromList b \<lparr>Id_c = ident, Addr = zeroTCPAddr\<rparr> of
          Some (Elem i) \<Rightarrow> Inr (Some (contacts b ! i))
        | Some StaleRoot \<Rightarrow> Inl InterfaceConversion
        | None \<Rightarrow> Inr None))"
proof (cases slot)
  case None
  then show ?thesis using assms by (simp add: ContactFromID_def)
next
  case (Some b)
  show ?thesis
  proof (cases "getFromList b \<lparr>Id_c = ident, Addr = zeroTCPAddr\<rparr>")
    case None
    then show ?thesis using assms Some by (simp add: ContactFromID_def)
  next
    case (Some e)
    show ?thesis
    proof (cases e)
      case (Elem i)
      then have "i < length (contacts b)"
        using Some getFromList_Elem by blast
      then show ?thesis
        using assms \<open>slot = Some b\<close> Some Elem by (simp add: ContactFromID_def Value_def)
    next
      case StaleRoot
      then show ?thesis
        using assms \<open>slot = Some b\<close> Some by (simp add: ContactFromID_def Value_def)
    qed
  qed
qed

lemma bucketAt_update:
  assumes "bucketAt self i = Inr slot"
  shows "bucketAt (self\<lparr>kBuckets := (kBuckets self)[nat i := p]\<rparr>) i = Inr p"
proof -
  have "0 \<le> i" "nat i < length (kBuckets self)"
    using bucketAt_Inr [OF assms] by simp_all
  then have "i < int (length (kBuckets self))" by linarith
  then show ?thesis using \<open>0 \<le> i\<close> \<open>nat i < length (kBuckets self)\<close>
    by (simp add: bucketAt_def)
qed

text \<open>
  Claim C2, as amended. \<open>add\<close> takes the bucket index from the contact's address and
  \<open>ContactFromID\<close> takes it from the identifier. Let \<open>add\<close> of a contact \<open>c\<close>
  complete, and let \<open>GetKBucketFromAddr\<close> of \<open>c\<close>'s address be \<open>GetKBucketFromID\<close>
  of \<open>c\<close>'s identifier. If the lookup of \<open>c\<close>'s identifier found a contact before the
  call, it finds that same contact after it: the stored contact has \<open>c\<close>'s identifier
  and keeps the address it was stored with. If the lookup returned nil before the call
  and the bucket is not full, the lookup after the call returns \<open>c\<close>, identifier and
  address. Nothing is said of the identifier 0 where no contact of a bucket that is not
  empty has it: there the lookup does not return nil, it panics on the stale root, before
  the call and after it (\<open>ContactFromID_stale_root\<close>, \<open>addContact_stale_root\<close>).
\<close>

theorem lookup_after_add:
  assumes "add self c = Inr self'"
    and "GetKBucketFromAddr (owner self) (Addr c) = GetKBucketFromID (owner self) (Id_c c)"
  shows "(\<forall>c0. ContactFromID self (Id_c c) = Inr (Some c0) \<longrightarrow>
            ContactFromID self' (Id_c c) = Inr (Some c0) \<and> Id_c c0 = Id_c c) \<and>
         (ContactFromID self (Id_c c) = Inr None \<longrightarrow>
            (\<forall>b. bucketAt self (GetKBucketFromAddr (owner self) (Addr c)) = Inr (Some b) \<longrightarrow>
               int (length (contacts b)) < k b) \<longrightarrow>
            ContactFromID self' (Id_c c) = Inr (Some c))"
proof -
  let ?i = "GetKBucketFromAddr (owner self) (Addr c)"
  let ?probe = "\<lparr>Id_c = Id_c c, Addr = zeroTCPAddr\<rparr>"
  from assms(1) obtain slot where
    at: "bucketAt self ?i = Inr slot" and
    eq: "self' = self\<lparr>kBuckets := (kBuckets self)[nat ?i :=
           Some (fst (addContact (case slot of None \<Rightarrow> NewKBucket 20 | Some b \<Rightarrow> b) c))]\<rparr>"
    by (rule add_cases)
  let ?b = "case slot of None \<Rightarrow> NewKBucket 20 | Some b \<Rightarrow> b"
  let ?b' = "fst (addContact ?b c)"
  have own: "owner self' = owner self" by (simp add: eq)
  have at': "bucketAt self' (GetKBucketFromID (owner self') (Id_c c)) = Inr (Some ?b')"
  proof -
    have "bucketAt self' ?i = Inr (Some ?b')"
      unfolding eq using at by (rule bucketAt_update)
    then show ?thesis by (simp add: own assms(2))
  qed
  have probe: "getFromList b ?probe = getFromList b c" for b
    by (rule getFromList_cong) simp
  have before: "ContactFromID self (Id_c c) =
    (case slot of None \<Rightarrow> Inr None
     | Some b \<Rightarrow> (case getFromList b c of
          Some (Elem i) \<Rightarrow> Inr (Some (contacts b ! i))
        | Some StaleRoot \<Rightarrow> Inl InterfaceConversion
        | None \<Rightarrow> Inr None))"
    using ContactFromID_eq [of self "Id_c c" slot] at assms(2)
    by (simp add: probe cong: option.case_cong)
  have after: "ContactFromID self' (Id_c c) =
    (case getFromList ?b' c of
          Some (Elem i) \<Rightarrow> Inr (Some (contacts ?b' ! i))
        | Some StaleRoot \<Rightarrow> Inl InterfaceConversion
        | None \<Rightarrow> Inr None)"
    using ContactFromID_eq [OF at'] by (simp add: probe)
  have front: "ContactFromID self' (Id_c c) = Inr (Some x)"
    if "contacts ?b' = x # xs" and "Id_c x = Id_c c" for x xs
    using getFromList_hd [OF that] that(1) by (simp add: after)
  have A: "ContactFromID self' (Id_c c) = Inr (Some c0) \<and> Id_c c0 = Id_c c"
    if "ContactFromID self (Id_c c) = Inr (Some c0)" for c0
  proof -
    from that before obtain b j where
      slot: "slot = Some b" and j: "getFromList b c = Some (Elem j)"
      and c0: "c0 = contacts b ! j"
      by (auto split: option.splits Element.splits)
    from j have jl: "j < length (contacts b)" and jid: "Id_c (contacts b ! j) = Id_c c"
      using getFromList_Elem by blast+
    have "contacts ?b' = c0 # (take j (contacts b) @ drop (Suc j) (contacts b))"
      using slot j jl c0 by (simp add: addContact_def MoveToFront_def)
    then show ?thesis
      using front jid c0 by simp
  qed
  have B: "ContactFromID self' (Id_c c) = Inr (Some c)"
    if none: "ContactFromID self (Id_c c) = Inr None"
      and room: "\<forall>b. bucketAt self ?i = Inr (Some b) \<longrightarrow> int (length (contacts b)) < k b"
  proof -
    have absent: "getFromList ?b c = None"
    proof (cases slot)
      case None
      then show ?thesis by (simp add: getFromList_None NewKBucket_def)
    next
      case (Some b)
      then show ?thesis
        using none before by (auto split: option.splits Element.splits)
    qed
    have "int (length (contacts ?b)) < k ?b"
      using room at by (auto simp: NewKBucket_def split: option.splits)
    then have "contacts ?b' = c # contacts ?b"
      using absent by (simp add: addContact_def PushFront_def)
    then show ?thesis
      using front by simp
  qed
  show ?thesis using A B by blast
qed

theorem lookup_after_add_witness:
  "add ex_one ex_six = Inr ex_two \<and>
   GetKBucketFromAddr (owner ex_one) (Addr ex_six) = GetKBucketFromID (owner ex_one) (Id_c ex_six) \<and>
   ContactFromID ex_one (Id_c ex_six) = Inr None \<and>
   bucketAt ex_one (GetKBucketFromAddr (owner ex_one) (Addr ex_six)) =
     Inr (Some \<lparr>contacts = [ex_old], k = 20, lruCache = []\<rparr>) \<and>
   ContactFromID ex_two (Id_c ex_six) = Inr (Some ex_six) \<and>
   add ex_one ex_moved = Inr ex_one \<and>
   GetKBucketFromAddr (owner ex_one) (Addr ex_moved) =
     GetKBucketFromID (owner ex_one) (Id_c ex_moved) \<and>
   ContactFromID ex_one (Id_c ex_moved) = Inr (Some ex_old)"
proof -
  have r6: "GetKBucketFromAddr (owner ex_one) (Addr ex_six) =
      GetKBucketFromID (owner ex_one) (Id_c ex_six)"
    by code_simp
  have n6: "ContactFromID ex_one (Id_c ex_six) = Inr None"
    by code_simp
  have b6: "bucketAt ex_one (GetKBucketFromAddr (owner ex_one) (Addr ex_six)) =
      Inr (Some \<lparr>contacts = [ex_old], k = 20, lruCache = []\<rparr>)"
    by code_simp
  have rm: "GetKBucketFromAddr (owner ex_one) (Addr ex_moved) =
      GetKBucketFromID (owner ex_one) (Id_c ex_moved)"
    by code_simp
  have fm: "ContactFromID ex_one (Id_c ex_moved) = Inr (Some ex_old)"
    by code_simp
  have "ContactFromID ex_two (Id_c ex_six) = Inr (Some ex_six)"
    using lookup_after_add [OF ex_two_add r6] n6 b6 by simp
  moreover have "ContactFromID ex_one (Id_c ex_moved) = Inr (Some ex_old) \<and>
      Id_c ex_old = Id_c ex_moved"
    using lookup_after_add [OF ex_one_add_moved rm] fm by blast
  ultimately show ?thesis
    using ex_two_add ex_one_add_moved r6 n6 b6 rm by simp
qed

text \<open>
  Claim C2 as stated fails twice. \<open>ex_moved\<close> has the identifier of the stored
  \<open>ex_old\<close> and another address of the same bucket: \<open>add\<close> completes, the bucket has
  room, and the lookup returns \<open>ex_old\<close> with the old address. \<open>ex_far\<close> has an
  address of bucket 152 and an identifier of bucket 157: \<open>add\<close> into the new table
  completes and the lookup of its identifier finds nothing.
\<close>

theorem lookup_after_add_counterexample:
  "add (NewRoutingTable ex_owner) ex_old = Inr ex_one \<and>
   add ex_one ex_moved = Inr ex_one \<and>
   ContactFromID ex_one (Id_c ex_moved) = Inr (Some ex_old) \<and>
   Addr ex_old \<noteq> Addr ex_moved \<and>
   add (NewRoutingTable ex_owner) ex_far = Inr ex_lost \<and>
   ContactFromID ex_lost (Id_c ex_far) = Inr None"
proof -
  have "ContactFromID ex_one (Id_c ex_moved) = Inr (Some ex_old)"
    by code_simp
  moreover have "Addr ex_old \<noteq> Addr ex_moved"
    by code_simp
  moreover have "ContactFromID ex_lost (Id_c ex_far) = Inr None"
    by code_simp
  ultimately show ?thesis
    using ex_one_add ex_one_add_moved ex_lost_add by simp
qed

section \<open>A full bucket\<close>

lemma ex_crowded_reachable:
  "run_ops (NewRoutingTable ex_owner) (map OpAdd ex_twenty) = Inr ex_crowded"
proof -
  have "map_sum id kBuckets (run_ops (NewRoutingTable ex_owner) (map OpAdd ex_twenty))
    = Inr (kBuckets ex_crowded)"
    by code_simp
  then have "run_ops (NewRoutingTable ex_owner) (map OpAdd ex_twenty)
    = Inr ((NewRoutingTable ex_owner)\<lparr>kBuckets := kBuckets ex_crowded\<rparr>)"
    by (rule run_ops_eqI)
  then show ?thesis by (simp add: NewRoutingTable_def ex_crowded_def)
qed

text \<open>
  Claim C7, as amended. \<open>addContact\<close> of a contact that \<open>getFromList\<close> does not find
  in a bucket holding \<open>k\<close> contacts (or more) returns false and the bucket as it was: its
  contacts and its replacement cache are unchanged, and nothing is pushed onto the cache.
  An \<open>add\<close> that reaches such a bucket leaves the whole table as it was.
  \<open>getFromList\<close> returns nil for a contact whose identifier no contact of the bucket has
  and is not 0 (\<open>getFromList_None\<close>); nothing is said of the identifier 0, which the
  stale root of the bucket's list matches.
\<close>

theorem addContact_full:
  assumes "getFromList self contact = None"
    and "\<not> int (length (contacts self)) < k self"
  shows "addContact self contact = (self, False) \<and>
    (bucketAt table (GetKBucketFromAddr (owner table) (Addr contact)) = Inr (Some self) \<longrightarrow>
       add table contact = Inr table)"
proof -
  have full: "addContact self contact = (self, False)"
    using assms by (simp add: addContact_def)
  have "add table contact = Inr table"
    if at: "bucketAt table (GetKBucketFromAddr (owner table) (Addr contact)) = Inr (Some self)"
  proof -
    have "kBuckets table ! nat (GetKBucketFromAddr (owner table) (Addr contact)) = Some self"
      using bucketAt_Inr [OF at] by simp
    then have "(kBuckets table)[nat (GetKBucketFromAddr (owner table) (Addr contact)) := Some self]
      = kBuckets table"
      by (metis list_update_id)
    then show ?thesis using at full by (simp add: add_def)
  qed
  with full show ?thesis by simp
qed

theorem addContact_full_witness:
  "getFromList ex_full ex_extra = None \<and>
   \<not> int (length (contacts ex_full)) < k ex_full \<and>
   bucketAt ex_crowded (GetKBucketFromAddr (owner ex_crowded) (Addr ex_extra)) = Inr (Some ex_full) \<and>
   addContact ex_full ex_extra = (ex_full, False) \<and>
   add ex_crowded ex_extra = Inr ex_crowded"
proof -
  have a: "getFromList ex_full ex_extra = None"
    by code_simp
  have b: "\<not> int (length (contacts ex_full)) < k ex_full"
    by code_simp
  have c: "bucketAt ex_crowded (GetKBucketFromAddr (owner ex_crowded) (Addr ex_extra)) =
      Inr (Some ex_full)"
    by code_simp
  show ?thesis
    using addContact_full [OF a b, of ex_crowded] a b c by simp
qed

text \<open>
  Claim C7 as stated fails: after twenty contacts filled bucket 154, \<open>addContact\<close> of a
  twenty-first returns false and the bucket's \<open>lruCache\<close> is still empty, so the contact
  was not pushed onto it.
\<close>

theorem addContact_full_counterexample:
  "run_ops (NewRoutingTable ex_owner) (map OpAdd ex_twenty) = Inr ex_crowded \<and>
   bucketAt ex_crowded (GetKBucketFromAddr (owner ex_crowded) (Addr ex_extra)) = Inr (Some ex_full) \<and>
   getFromList ex_full ex_extra = None \<and>
   length (contacts ex_full) = 20 \<and> k ex_full = 20 \<and>
   snd (addContact ex_full ex_extra) = False \<and>
   lruCache (fst (addContact ex_full ex_extra)) = [] \<and>
   ex_extra \<notin> set (lruCache (fst (addContact ex_full ex_extra)))"
proof -
  have "bucketAt ex_crowded (GetKBucketFromAddr (owner ex_crowded) (Addr ex_extra)) =
      Inr (Some ex_full)"
    by code_simp
  moreover have "getFromList ex_full ex_extra = None"
    by code_simp
  moreover have "length (contacts ex_full) = 20" "k ex_full = 20"
    by code_simp+
  moreover have "snd (addContact ex_full ex_extra) = False"
    by code_simp
  moreover have "lruCache (fst (addContact ex_full ex_extra)) = []"
    by code_simp
  ultimately show ?thesis using ex_crowded_reachable by simp
qed

section \<open>Adding an identifier again\<close>

lemma ex_swapped_add: "add ex_two ex_moved = Inr ex_swapped"
proof -
  have "map_sum id kBuckets (add ex_two ex_moved) = Inr (kBuckets ex_swapped)"
    by code_simp
  then have "add ex_two ex_moved = Inr (ex_two\<lparr>kBuckets := kBuckets ex_swapped\<rparr>)"
    by (rule add_eqI)
  then show ?thesis by (simp add: ex_two_def ex_swapped_def)
qed

lemma stored_update:
  assumes "i < length (kBuckets self)" and "kBuckets self ! i = Some b"
    and "mset (contacts b') = mset (contacts b)"
  shows "mset (stored (self\<lparr>kBuckets := (kBuckets self)[i := Some b']\<rparr>)) = mset (stored self)"
proof -
  let ?f = "\<lambda>p. case p of None \<Rightarrow> [] | Some b \<Rightarrow> contacts b"
  let ?xs = "kBuckets self"
  have new: "?xs[i := Some b'] = take i ?xs @ Some b' # drop (Suc i) ?xs"
    using assms(1) by (rule upd_conv_take_nth_drop)
  have "?xs = take i ?xs @ ?xs ! i # drop (Suc i) ?xs"
    using assms(1) by (rule id_take_nth_drop)
  then have old: "?xs = take i ?xs @ Some b # drop (Suc i) ?xs"
    using assms(2) by simp
  have "mset (concat (map ?f (take i ?xs @ Some b' # drop (Suc i) ?xs))) =
        mset (concat (map ?f (take i ?xs @ Some b # drop (Suc i) ?xs)))"
    using assms(3) by simp
  then show ?thesis
    unfolding stored_def using new old by simp
qed

text \<open>
  Claim C8, as amended. When \<open>add\<close> of a contact \<open>c\<close> reaches a bucket that already
  holds \<open>c\<close>'s identifier, at position \<open>i\<close>, the stored contact is moved to the front of
  the bucket's list, the end where new contacts are pushed, and is otherwise left as it
  is: it keeps the address it was stored with, whatever the address of \<open>c\<close>. The contacts
  stored in the table are the same as before, so there is no second entry.
\<close>

theorem add_again_moves_to_front:
  assumes "add self c = Inr self'"
    and "bucketAt self (GetKBucketFromAddr (owner self) (Addr c)) = Inr (Some b)"
    and "getFromList b c = Some (Elem i)"
  shows "bucketAt self' (GetKBucketFromAddr (owner self) (Addr c)) =
      Inr (Some (b\<lparr>contacts := (contacts b ! i) # (take i (contacts b) @ drop (Suc i) (contacts b))\<rparr>)) \<and>
    Id_c (contacts b ! i) = Id_c c \<and>
    mset (stored self') = mset (stored self)"
proof -
  let ?i = "GetKBucketFromAddr (owner self) (Addr c)"
  from assms(3) have il: "i < length (contacts b)" and iid: "Id_c (contacts b ! i) = Id_c c"
    using getFromList_Elem by blast+
  have ac: "fst (addContact b c) =
      b\<lparr>contacts := (contacts b ! i) # (take i (contacts b) @ drop (Suc i) (contacts b))\<rparr>"
    using assms(3) il by (simp add: addContact_def MoveToFront_def)
  have eq: "self' = self\<lparr>kBuckets := (kBuckets self)[nat ?i := Some (fst (addContact b c))]\<rparr>"
    using assms(1,2) by (simp add: add_def)
  have at': "bucketAt self' ?i = Inr (Some (fst (addContact b c)))"
    unfolding eq using assms(2) by (rule bucketAt_update)
  have "mset (contacts (fst (addContact b c))) = mset (contacts b)"
    using assms(3) by (simp add: addContact_def MoveToFront_mset)
  then have "mset (stored self') = mset (stored self)"
    unfolding eq using bucketAt_Inr [OF assms(2)] by (intro stored_update) auto
  then show ?thesis using at' iid by (simp add: ac)
qed

theorem add_again_moves_to_front_witness:
  "add ex_two ex_moved = Inr ex_swapped \<and>
   bucketAt ex_two (GetKBucketFromAddr (owner ex_two) (Addr ex_moved)) =
     Inr (Some \<lparr>contacts = [ex_six, ex_old], k = 20, lruCache = []\<rparr>) \<and>
   getFromList \<lparr>contacts = [ex_six, ex_old], k = 20, lruCache = []\<rparr> ex_moved = Some (Elem 1) \<and>
   bucketAt ex_swapped (GetKBucketFromAddr (owner ex_two) (Addr ex_moved)) =
     Inr (Some \<lparr>contacts = [ex_old, ex_six], k = 20, lruCache = []\<rparr>) \<and>
   Id_c ex_old = Id_c ex_moved \<and>
   mset (stored ex_swapped) = mset (stored ex_two)"
proof -
  have a: "bucketAt ex_two (GetKBucketFromAddr (owner ex_two) (Addr ex_moved)) =
     Inr (Some \<lparr>contacts = [ex_six, ex_old], k = 20, lruCache = []\<rparr>)"
    by code_simp
  have b: "getFromList \<lparr>contacts = [ex_six, ex_old], k = 20, lruCache = []\<rparr> ex_moved =
      Some (Elem 1)"
    by code_simp
  show ?thesis
    using add_again_moves_to_front [OF ex_swapped_add a b] ex_swapped_add a b by simp
qed

text \<open>
  Claim C8 as stated fails: bucket 157 holds \<open>ex_six\<close> and \<open>ex_old\<close>, and \<open>ex_moved\<close>
  has the identifier of \<open>ex_old\<close> at another address. After \<open>add\<close> the bucket holds
  \<open>ex_old\<close>, moved to the front, with its old address; \<open>ex_moved\<close>, the contact with the
  new address, is not stored.
\<close>

theorem add_again_counterexample:
  "add ex_two ex_moved = Inr ex_swapped \<and>
   stored ex_two = [ex_six, ex_old] \<and>
   Id_c ex_moved = Id_c ex_old \<and>
   Addr ex_moved \<noteq> Addr ex_old \<and>
   stored ex_swapped = [ex_old, ex_six] \<and>
   ex_moved \<notin> set (stored ex_swapped)"
proof -
  have "stored ex_two = [ex_six, ex_old]" by code_simp
  moreover have "Id_c ex_moved = Id_c ex_old" by code_simp
  moreover have "Addr ex_moved \<noteq> Addr ex_old" by code_simp
  moreover have "stored ex_swapped = [ex_old, ex_six]" by code_simp
  moreover have "ex_moved \<notin> set (stored ex_swapped)" by code_simp
  ultimately show ?thesis using ex_swapped_add by simp
qed

section \<open>What findKNearestContacts returns\<close>

text \<open>
  The slice \<open>kNearest\<close> has length \<open>k\<close> from its allocation on, so neither loop is
  entered: the result is the 20 entries of \<open>getAllContacts\<close> of the one bucket at the
  target's index, sorted by the narrowed distance. A nil slot at that index is a panic,
  and so is a bucket of 20 contacts, on which \<open>getAllContacts\<close> panics.
\<close>

lemma findKNearestContacts_eq:
  assumes "bucketAt self (GetKBucketFromID (owner self) ident) = Inr (Some b)"
    and "length (contacts b) < 20"
  shows "findKNearestContacts self ident =
    Inr (sort_Slice (contacts b @ replicate (20 - length (contacts b)) zeroContact)
      (kNearest_less ident))"
  using assms
  by (simp add: findKNearestContacts_def getAllContacts_ptr_def getAllContacts_eq copy_slice_def
      k_package_def)

lemma findKNearestContacts_full:
  assumes "bucketAt self (GetKBucketFromID (owner self) ident) = Inr (Some b)"
    and "20 \<le> length (contacts b)"
  shows "findKNearestContacts self ident = Inl IndexOutOfRange"
  using assms
  by (simp add: findKNearestContacts_def getAllContacts_ptr_def getAllContacts_panic)

lemma findKNearestContacts_nil:
  assumes "bucketAt self (GetKBucketFromID (owner self) ident) = Inr None"
  shows "findKNearestContacts self ident = Inl NilDereference"
  using assms by (simp add: findKNearestContacts_def getAllContacts_ptr_def)

lemma findKNearestContacts_Inr:
  assumes "findKNearestContacts self ident = Inr res"
  obtains slot cs where "bucketAt self (GetKBucketFromID (owner self) ident) = Inr slot"
    and "getAllContacts_ptr slot = Inr cs"
    and "res = sort_Slice cs (kNearest_less ident)"
proof -
  from assms obtain slot where
    at: "bucketAt self (GetKBucketFromID (owner self) ident) = Inr slot"
    by (cases "bucketAt self (GetKBucketFromID (owner self) ident)")
      (auto simp: findKNearestContacts_def)
  from assms at obtain cs where cs: "getAllContacts_ptr slot = Inr cs"
    by (cases "getAllContacts_ptr slot") (auto simp: findKNearestContacts_def)
  have len: "length cs = 20" using cs by (rule getAllContacts_ptr_length)
  then have "copy_slice (replicate k_package zeroContact) cs = cs"
    by (simp add: copy_slice_def k_package_def)
  then have "res = sort_Slice cs (kNearest_less ident)"
    using assms at cs len by (simp add: findKNearestContacts_def k_package_def)
  with at cs show ?thesis by (rule that)
qed

text \<open>For every table and every target, a result has exactly \<open>k\<close> entries and is in
  non-decreasing order of the narrowed distance.\<close>

lemma findKNearestContacts_length:
  "findKNearestContacts self ident = Inr res \<Longrightarrow> length res = k_package"
  by (erule findKNearestContacts_Inr)
    (simp add: sort_Slice_length k_package_def getAllContacts_ptr_length)

lemma findKNearestContacts_sorted_narrowed:
  assumes "findKNearestContacts self ident = Inr res"
  shows "sorted (map (\<lambda>c. float64 (Uint64 (distanceBetween ident (Id_c c)))) res)"
  using assms
  by (elim findKNearestContacts_Inr)
    (simp add: sort_Slice_sorted_key kNearest_less_def)

lemma ex_near_findKNearest:
  "findKNearestContacts ex_near ex_target = Inr (ex_a # ex_b # replicate 18 zeroContact)"
  by code_simp

text \<open>The result at \<open>ex_near\<close> does not depend on how the library orders ties: the
  two contacts and the zero contact have three different narrowed distances, so the
  sequence above is the only permutation of the 20 entries that is in order.\<close>

lemma ex_near_findKNearest_any_order:
  assumes "mset ys = mset (ex_b # ex_a # replicate 18 zeroContact)"
    and "sorted (map (\<lambda>c. float64 (Uint64 (distanceBetween ex_target (Id_c c)))) ys)"
  shows "ys = ex_a # ex_b # replicate 18 zeroContact"
proof -
  let ?f = "\<lambda>c. float64 (Uint64 (distanceBetween ex_target (Id_c c)))"
  let ?xs = "ex_b # ex_a # replicate 18 zeroContact"
  have "distinct (map ?f (remdups ?xs))" by code_simp
  then have "inj_on ?f (set (remdups ?xs))" by (simp only: distinct_map)
  then have inj: "inj_on ?f (set ?xs)" by (simp only: set_remdups)
  have "ys = sort_Slice ?xs (kNearest_less ex_target)"
    using inj assms by (intro sort_Slice_any_order [of _ ?f]) (simp_all add: kNearest_less_def)
  moreover have "sort_Slice ?xs (kNearest_less ex_target) = ex_a # ex_b # replicate 18 zeroContact"
    by code_simp
  ultimately show ?thesis by simp
qed

text \<open>When the bucket at the target's index holds 20 contacts, \<open>getAllContacts\<close> writes
  the zero contact of the stale root at index 20 and \<open>findKNearestContacts\<close> panics.\<close>

lemma ex_crowded_findKNearest:
  "GetKBucketFromID (owner ex_crowded) 40 = 154 \<and>
   bucketAt ex_crowded 154 = Inr (Some ex_full) \<and>
   length (contacts ex_full) = 20 \<and>
   getAllContacts ex_full = Inl IndexOutOfRange \<and>
   findKNearestContacts ex_crowded 40 = Inl IndexOutOfRange"
  by code_simp

text \<open>
  Claim C1 fails on the code at this input (a defect of the code). In \<open>ex_near\<close> the
  bucket of \<open>ex_target\<close> holds \<open>ex_a\<close>, at XOR distance \<open>2 ^ 64 + 1\<close>, and \<open>ex_b\<close>,
  at distance 2. The comparison narrows both distances to 64 bits, 1 and 2, and the result
  lists \<open>ex_a\<close> before \<open>ex_b\<close>: it is not in non-decreasing order of the full-width
  distance.
\<close>

theorem findKNearest_order_failing_input:
  "run_ops (NewRoutingTable ex_owner) [OpAdd ex_a, OpAdd ex_b, OpAdd ex_c, OpAdd ex_d] = Inr ex_near \<and>
   findKNearestContacts ex_near ex_target = Inr (ex_a # ex_b # replicate 18 zeroContact) \<and>
   distanceBetween ex_target (Id_c ex_a) = 2 ^ 64 + 1 \<and>
   distanceBetween ex_target (Id_c ex_b) = 2 \<and>
   Uint64 (distanceBetween ex_target (Id_c ex_a)) = 1 \<and>
   \<not> sorted (map (distanceBetween ex_target) (map Id_c (ex_a # ex_b # replicate 18 zeroContact)))"
proof -
  have "distanceBetween ex_target (Id_c ex_a) = 2 ^ 64 + 1"
    by code_simp
  moreover have "distanceBetween ex_target (Id_c ex_b) = 2"
    by code_simp
  moreover have "Uint64 (distanceBetween ex_target (Id_c ex_a)) = 1"
    by code_simp
  moreover have
    "\<not> sorted (map (distanceBetween ex_target) (map Id_c (ex_a # ex_b # replicate 18 zeroContact)))"
    by code_simp
  ultimately show ?thesis using ex_near_reachable ex_near_findKNearest by simp
qed

text \<open>
  Claim C4 fails on the code at this input (a defect of the code). \<open>ex_near\<close> stores
  four contacts, two of them in the bucket of \<open>ex_target\<close>. The result has 20 entries:
  the two contacts of that bucket and 18 zero-valued contacts, the padding of the
  fixed-size slices, which are not stored in the table.
\<close>

theorem findKNearest_padding_failing_input:
  "findKNearestContacts ex_near ex_target = Inr (ex_a # ex_b # replicate 18 zeroContact) \<and>
   stored ex_near = [ex_c, ex_b, ex_a, ex_d] \<and>
   zeroContact \<in> set (ex_a # ex_b # replicate 18 zeroContact) \<and>
   zeroContact \<notin> set (stored ex_near) \<and>
   length (ex_a # ex_b # replicate 18 zeroContact) = k_package"
proof -
  have "stored ex_near = [ex_c, ex_b, ex_a, ex_d]"
    by code_simp
  moreover have "zeroContact \<notin> set (stored ex_near)"
    by code_simp
  moreover have "length (ex_a # ex_b # replicate 18 zeroContact) = k_package"
    by code_simp
  ultimately show ?thesis using ex_near_findKNearest by simp
qed

text \<open>
  Claim C5 fails on the code at this input (a defect of the code). In \<open>ex_near\<close> the
  bucket at the target's index 94 holds two contacts, fewer than \<open>k\<close>; bucket 93 to its
  left holds \<open>ex_c\<close> and bucket 95 to its right holds \<open>ex_d\<close>. The result holds neither
  \<open>ex_c\<close> nor \<open>ex_d\<close>: no bucket but the one at index 94 was scanned.
\<close>

theorem findKNearest_expansion_failing_input:
  "GetKBucketFromID (owner ex_near) ex_target = 94 \<and>
   bucketAt ex_near 94 = Inr (Some \<lparr>contacts = [ex_b, ex_a], k = 20, lruCache = []\<rparr>) \<and>
   bucketAt ex_near 93 = Inr (Some \<lparr>contacts = [ex_c], k = 20, lruCache = []\<rparr>) \<and>
   bucketAt ex_near 95 = Inr (Some \<lparr>contacts = [ex_d], k = 20, lruCache = []\<rparr>) \<and>
   findKNearestContacts ex_near ex_target = Inr (ex_a # ex_b # replicate 18 zeroContact) \<and>
   ex_c \<notin> set (ex_a # ex_b # replicate 18 zeroContact) \<and>
   ex_d \<notin> set (ex_a # ex_b # replicate 18 zeroContact)"
proof -
  have "GetKBucketFromID (owner ex_near) ex_target = 94"
    by code_simp
  moreover have "bucketAt ex_near 94 = Inr (Some \<lparr>contacts = [ex_b, ex_a], k = 20, lruCache = []\<rparr>)"
    by code_simp
  moreover have "bucketAt ex_near 93 = Inr (Some \<lparr>contacts = [ex_c], k = 20, lruCache = []\<rparr>)"
    by code_simp
  moreover have "bucketAt ex_near 95 = Inr (Some \<lparr>contacts = [ex_d], k = 20, lruCache = []\<rparr>)"
    by code_simp
  moreover have "ex_c \<notin> set (ex_a # ex_b # replicate 18 zeroContact)"
    by code_simp
  moreover have "ex_d \<notin> set (ex_a # ex_b # replicate 18 zeroContact)"
    by code_simp
  ultimately show ?thesis using ex_near_findKNearest by simp
qed

section \<open>Identifiers that are not stored\<close>

text \<open>
  The lookup of an identifier that no contact of its bucket has returns nil, but for the
  identifier 0 in a bucket that is not empty: there \<open>getFromList\<close> returns the stale
  root and the type assertion panics. \<open>remove\<close> of a contact whose identifier is not in
  its bucket leaves the table as it is; \<open>removeContact\<close> returns false, but for the
  identifier 0 in a bucket that is not empty, where it returns true.
\<close>

lemma ContactFromID_absent:
  assumes "bucketAt table (GetKBucketFromID (owner table) ident) = Inr slot"
    and "\<forall>b. slot = Some b \<longrightarrow>
           ident \<notin> Id_c ` set (contacts b) \<and> (contacts b = [] \<or> ident \<noteq> 0)"
  shows "ContactFromID table ident = Inr None"
proof (cases slot)
  case None
  then show ?thesis using assms(1) by (simp add: ContactFromID_eq)
next
  case (Some b)
  then have "getFromList b \<lparr>Id_c = ident, Addr = zeroTCPAddr\<rparr> = None"
    using assms(2) by (simp add: getFromList_None)
  then show ?thesis using assms(1) Some by (simp add: ContactFromID_eq)
qed

lemma ContactFromID_stale_root:
  assumes "bucketAt table (GetKBucketFromID (owner table) 0) = Inr (Some b)"
    and "0 \<notin> Id_c ` set (contacts b)" and "contacts b \<noteq> []"
  shows "ContactFromID table 0 = Inl InterfaceConversion"
proof -
  have "getFromList b \<lparr>Id_c = 0, Addr = zeroTCPAddr\<rparr> = Some StaleRoot"
    using assms(2,3) by (simp add: getFromList_StaleRoot)
  then show ?thesis using assms(1) by (simp add: ContactFromID_eq)
qed

lemma remove_rt_absent:
  assumes "bucketAt self (GetKBucketFromAddr (owner self) (Addr contact)) = Inr (Some b)"
    and "Id_c contact \<notin> Id_c ` set (contacts b)"
  shows "remove_rt self contact = Inr self \<and>
    removeContact b contact = (b, contacts b \<noteq> [] \<and> Id_c contact = 0)"
proof -
  have same: "removeContact b contact = (b, contacts b \<noteq> [] \<and> Id_c contact = 0)"
  proof (cases "contacts b \<noteq> [] \<and> Id_c contact = 0")
    case True
    then have "getFromList b contact = Some StaleRoot"
      using assms(2) by (simp add: getFromList_StaleRoot)
    then show ?thesis using True by (simp add: removeContact_def Remove_def)
  next
    case False
    then have "getFromList b contact = None"
      using assms(2) by (auto simp: getFromList_None)
    then show ?thesis using False by (simp add: removeContact_def)
  qed
  have "kBuckets self ! nat (GetKBucketFromAddr (owner self) (Addr contact)) = Some b"
    using bucketAt_Inr [OF assms(1)] by simp
  then have "(kBuckets self)[nat (GetKBucketFromAddr (owner self) (Addr contact)) := Some b]
      = kBuckets self"
    by (metis list_update_id)
  then show ?thesis using assms(1) same by (simp add: remove_rt_def)
qed

text \<open>\<open>addContact\<close> of a contact with the identifier 0 that is not in a bucket that is
  not empty: \<open>getFromList\<close> returns the stale root, \<open>MoveToFront\<close> does nothing to it,
  and \<open>addContact\<close> returns true with the bucket as it was.\<close>

lemma addContact_stale_root:
  assumes "Id_c contact = 0" and "0 \<notin> Id_c ` set (contacts b)" and "contacts b \<noteq> []"
  shows "addContact b contact = (b, True)"
proof -
  have "getFromList b contact = Some StaleRoot"
    using assms by (simp add: getFromList_StaleRoot)
  then show ?thesis by (simp add: addContact_def MoveToFront_def)
qed

lemma ex_stale_root:
  "getFromList \<lparr>contacts = [ex_old], k = 20, lruCache = []\<rparr> (ex_contact 0 7 2) = Some StaleRoot \<and>
   addContact \<lparr>contacts = [ex_old], k = 20, lruCache = []\<rparr> (ex_contact 0 7 2) =
     (\<lparr>contacts = [ex_old], k = 20, lruCache = []\<rparr>, True) \<and>
   removeContact \<lparr>contacts = [ex_old], k = 20, lruCache = []\<rparr> (ex_contact 0 7 2) =
     (\<lparr>contacts = [ex_old], k = 20, lruCache = []\<rparr>, True) \<and>
   getFromList ex_full (ex_contact 0 7 5) = Some StaleRoot \<and>
   addContact ex_full (ex_contact 0 7 5) = (ex_full, True)"
  by code_simp

text \<open>In \<open>ex_flat\<close> bucket 157 holds \<open>ex_old\<close> and no contact has the identifier 0:
  the lookup of 0 panics, and \<open>add\<close> of \<open>ex_zero\<close>, which goes to bucket 157 and
  finds room there, completes and stores nothing.\<close>

lemma ex_flat_add: "add (NewRoutingTable ex_flat_owner) ex_old = Inr ex_flat"
proof -
  have "map_sum id kBuckets (add (NewRoutingTable ex_flat_owner) ex_old) = Inr (kBuckets ex_flat)"
    by code_simp
  then have "add (NewRoutingTable ex_flat_owner) ex_old
    = Inr ((NewRoutingTable ex_flat_owner)\<lparr>kBuckets := kBuckets ex_flat\<rparr>)"
    by (rule add_eqI)
  then show ?thesis by (simp add: NewRoutingTable_def ex_flat_def)
qed

lemma ex_flat_add_zero: "add ex_flat ex_zero = Inr ex_flat"
proof -
  have "map_sum id kBuckets (add ex_flat ex_zero) = Inr (kBuckets ex_flat)"
    by code_simp
  then have "add ex_flat ex_zero = Inr (ex_flat\<lparr>kBuckets := kBuckets ex_flat\<rparr>)"
    by (rule add_eqI)
  then show ?thesis by simp
qed

lemma ex_flat_lookup_zero:
  "add (NewRoutingTable ex_flat_owner) ex_old = Inr ex_flat \<and>
   ContactFromID ex_flat (Id_c ex_zero) = Inl InterfaceConversion \<and>
   add ex_flat ex_zero = Inr ex_flat \<and>
   stored ex_flat = [ex_old]"
proof -
  have "ContactFromID ex_flat (Id_c ex_zero) = Inl InterfaceConversion"
    by code_simp
  moreover have "stored ex_flat = [ex_old]"
    by code_simp
  ultimately show ?thesis using ex_flat_add ex_flat_add_zero by simp
qed

lemma remove_rt_nil:
  assumes "bucketAt self (GetKBucketFromAddr (owner self) (Addr contact)) = Inr None"
  shows "remove_rt self contact = Inl NilDereference"
  using assms by (simp add: remove_rt_def)

text \<open>
  Claim C9 fails on the code at this input (a defect of the code). In the new table every
  slot is nil. \<open>ContactFromID\<close> checks the slot and returns nil, not found; \<open>remove\<close> of
  a contact with the same identifier calls \<open>removeContact\<close> through the nil slot and
  panics.
\<close>

theorem remove_nil_slot_failing_input:
  "bucketAt (NewRoutingTable ex_owner) (GetKBucketFromID ex_owner (Id_c ex_old)) = Inr None \<and>
   ContactFromID (NewRoutingTable ex_owner) (Id_c ex_old) = Inr None \<and>
   bucketAt (NewRoutingTable ex_owner) (GetKBucketFromAddr ex_owner (Addr ex_old)) = Inr None \<and>
   remove_rt (NewRoutingTable ex_owner) ex_old = Inl NilDereference"
proof -
  have a: "bucketAt (NewRoutingTable ex_owner) (GetKBucketFromID ex_owner (Id_c ex_old)) = Inr None"
    by code_simp
  have b: "bucketAt (NewRoutingTable ex_owner) (GetKBucketFromAddr ex_owner (Addr ex_old)) = Inr None"
    by code_simp
  have o: "owner (NewRoutingTable ex_owner) = ex_owner"
    by (simp add: NewRoutingTable_def)
  have "ContactFromID (NewRoutingTable ex_owner) (Id_c ex_old) = Inr None"
    using a by (intro ContactFromID_absent [where slot = None]) (simp_all add: o)
  moreover have "remove_rt (NewRoutingTable ex_owner) ex_old = Inl NilDereference"
    using b by (intro remove_rt_nil) (simp add: o)
  ultimately show ?thesis using a b by simp
qed

section \<open>Rounds of the loops\<close>

text \<open>A scan that finds a contact at position \<open>i\<close> makes \<open>i + 1\<close> rounds; a scan of
  a bucket of \<open>n > 0\<close> contacts that finds none makes \<open>n + 1\<close>, the last on the stale
  root.\<close>

lemma getFromList_rounds_enumerate:
  "getFromList_rounds (map (\<lambda>(i, v). (Elem i, Some v)) (enumerate n l) @ rest) c =
     (if Id_c c \<in> Id_c ` set l
      then Suc (length (takeWhile (\<lambda>x. Id_c x \<noteq> Id_c c) l))
      else length l + getFromList_rounds rest c)"
  by (induction l arbitrary: n) (auto simp: AreEqualContacts_def asContact_def)

lemma getFromList_rounds_eq:
  "getFromList_rounds (elements (contacts b)) c =
     (case getFromList b c of
        Some (Elem i) \<Rightarrow> Suc i
      | Some StaleRoot \<Rightarrow> Suc (length (contacts b))
      | None \<Rightarrow> length (elements (contacts b)))"
  using getFromList_rounds_enumerate [of 0 "contacts b" "[(StaleRoot, None)]" c]
  by (auto simp: getFromList_eq elements_def AreEqualContacts_def asContact_def zeroContact_def)

lemma getFromList_rounds_le: "getFromList_rounds es c \<le> length es"
  by (induction es c rule: getFromList_rounds.induct) auto

lemma getAllContacts_rounds_le:
  "getAllContacts_rounds es index arr \<le> Suc (length arr - index)"
proof (induction es index arr rule: getAllContacts_rounds.induct)
  case (1 index arr)
  then show ?case by simp
next
  case (2 e v es index arr)
  show ?case
  proof (cases "index < length arr")
    case True
    then have "getAllContacts_rounds es (Suc index) (arr[index := asContact v]) \<le>
        Suc (length arr - Suc index)"
      using 2 by simp
    then show ?thesis using True by simp
  next
    case False
    then show ?thesis by simp
  qed
qed

lemma getAllContacts_rounds_length:
  "getAllContacts_rounds es index arr \<le> length es"
  by (induction es index arr rule: getAllContacts_rounds.induct) auto

lemma getAllContacts_ptr_rounds_le: "getAllContacts_ptr_rounds p \<le> 21"
  using getAllContacts_rounds_le [of _ 0 "replicate 20 zeroContact"]
  by (auto simp: getAllContacts_ptr_rounds_def split: option.splits)

text \<open>One round of either loop appends 20 entries, which reaches \<open>k\<close>: a loop that is
  entered makes one round.\<close>

lemma findKNearest_left_rounds_le:
  "findKNearest_left_rounds self cur index kNearest \<le> 22"
proof -
  have "getAllContacts_ptr_rounds p +
      (case getAllContacts_ptr p of Inl e \<Rightarrow> 0
       | Inr cs \<Rightarrow>
           (let kNearest' = kNearest @ cs in
            if length kNearest' \<ge> k_package then 0
            else findKNearest_left_rounds self cur (index - 1) kNearest')) \<le> 21" for p
    using getAllContacts_ptr_rounds_le [of p]
    by (auto simp: k_package_def Let_def dest: getAllContacts_ptr_length split: sum.splits)
  then show ?thesis
    by (subst findKNearest_left_rounds.simps) (auto split: sum.splits simp: le_Suc_eq)
qed

lemma findKNearest_right_rounds_le:
  "findKNearest_right_rounds self cur kNearest \<le> 22"
proof -
  have "getAllContacts_ptr_rounds p +
      (case getAllContacts_ptr p of Inl e \<Rightarrow> 0
       | Inr cs \<Rightarrow>
           (let kNearest' = kNearest @ cs in
            if length kNearest' \<ge> k_package then 0
            else findKNearest_right_rounds self (cur + 1) kNearest')) \<le> 21" for p
    using getAllContacts_ptr_rounds_le [of p]
    by (auto simp: k_package_def Let_def dest: getAllContacts_ptr_length split: sum.splits)
  then show ?thesis
    by (subst findKNearest_right_rounds.simps) (auto split: sum.splits simp: le_Suc_eq)
qed

text \<open>In \<open>findKNearestContacts\<close> neither loop is entered: its rounds are those of the
  one call of \<open>getAllContacts\<close>.\<close>

lemma findKNearestContacts_rounds_eq:
  "findKNearestContacts_rounds self ident =
    (case bucketAt self (GetKBucketFromID (owner self) ident) of
       Inl e \<Rightarrow> 0 | Inr slot \<Rightarrow> getAllContacts_ptr_rounds slot)"
proof (cases "bucketAt self (GetKBucketFromID (owner self) ident)")
  case (Inl e)
  then show ?thesis by (simp add: findKNearestContacts_rounds_def)
next
  case (Inr slot)
  show ?thesis
  proof (cases "getAllContacts_ptr slot")
    case (Inl e)
    then show ?thesis using Inr by (simp add: findKNearestContacts_rounds_def)
  next
    case (Inr cs)
    then have "length cs = 20" by (rule getAllContacts_ptr_length)
    then have "length (copy_slice (replicate k_package zeroContact) cs) = k_package"
      by (simp add: copy_slice_def k_package_def)
    then show ?thesis
      using Inr \<open>bucketAt self (GetKBucketFromID (owner self) ident) = Inr slot\<close>
      by (simp add: findKNearestContacts_rounds_def)
  qed
qed

lemma table_inv_bucketAt:
  "table_inv self \<Longrightarrow> bucketAt self i = Inr (Some b) \<Longrightarrow> length (contacts b) \<le> 20"
  by (auto simp: table_inv_iff bucket_inv_def dest: bucketAt_Some)

text \<open>On the full bucket of \<open>ex_crowded\<close> a scan that finds nothing and
  \<open>getAllContacts\<close> make 21 rounds each, the last on the stale root.\<close>

lemma ex_crowded_rounds:
  "getAllContacts_ptr_rounds (Some ex_full) = 21 \<and>
   findKNearestContacts_rounds ex_crowded 40 = 21 \<and>
   ContactFromID_rounds ex_crowded 60 = 21 \<and>
   add_rounds ex_crowded ex_extra = 21 \<and>
   remove_rounds ex_crowded ex_extra = 21"
  by code_simp

text \<open>
  Claim C6. Every function of the model is total: the loops over a list are structural
  recursions and the two expansion loops of \<open>findKNearestContacts\<close> are defined with
  their termination proofs, the one to the left too, which changes \<open>index\<close> and not
  \<open>curr\<close> and still ends, since every round appends 20 entries or panics. In every
  table that a run of operations reaches from \<open>NewRoutingTable\<close>, \<open>add\<close>, \<open>remove\<close>,
  \<open>ContactFromID\<close> and \<open>findKNearestContacts\<close> make at most \<open>B * k\<close> = 160 * 20
  rounds of the loops of the file, and so does either expansion loop from any state it is
  started in.
\<close>

theorem rounds_bounded:
  assumes "run_ops (NewRoutingTable own) opers = Inr self"
  shows "add_rounds self contact \<le> 160 * k_package \<and>
    remove_rounds self contact \<le> 160 * k_package \<and>
    ContactFromID_rounds self ident \<le> 160 * k_package \<and>
    findKNearestContacts_rounds self ident \<le> 160 * k_package \<and>
    findKNearest_left_rounds self cur index kNearest \<le> 160 * k_package \<and>
    findKNearest_right_rounds self cur kNearest \<le> 160 * k_package"
proof -
  have inv: "table_inv self" using assms by (rule table_inv_reachable)
  have scan: "getFromList_rounds (elements (contacts b)) c \<le> 21"
    if "bucketAt self i = Inr (Some b)" for i b c
    using table_inv_bucketAt [OF inv that] getFromList_rounds_le [of "elements (contacts b)" c]
    by (simp add: elements_length split: if_splits)
  have "add_rounds self contact \<le> 21"
    using scan
    by (auto simp: add_rounds_def NewKBucket_def elements_def split: sum.splits option.splits)
  moreover have "remove_rounds self contact \<le> 21"
    using scan by (auto simp: remove_rounds_def split: sum.splits option.splits)
  moreover have "ContactFromID_rounds self ident \<le> 21"
    using scan by (auto simp: ContactFromID_rounds_def split: sum.splits option.splits)
  moreover have "findKNearestContacts_rounds self ident \<le> 21"
    using getAllContacts_ptr_rounds_le
    by (auto simp: findKNearestContacts_rounds_eq split: sum.splits)
  moreover have "findKNearest_left_rounds self cur index kNearest \<le> 22"
    by (rule findKNearest_left_rounds_le)
  moreover have "findKNearest_right_rounds self cur kNearest \<le> 22"
    by (rule findKNearest_right_rounds_le)
  ultimately show ?thesis by (simp add: k_package_def)
qed

theorem rounds_bounded_witness:
  "run_ops (NewRoutingTable ex_owner) [OpAdd ex_a, OpAdd ex_b, OpAdd ex_c, OpAdd ex_d] = Inr ex_near \<and>
   add_rounds ex_near ex_a = 2 \<and> add_rounds ex_near ex_a \<le> 160 * k_package \<and>
   remove_rounds ex_near ex_a = 2 \<and> remove_rounds ex_near ex_a \<le> 160 * k_package \<and>
   ContactFromID_rounds ex_near ex_target = 3 \<and>
   ContactFromID_rounds ex_near ex_target \<le> 160 * k_package \<and>
   findKNearestContacts_rounds ex_near ex_target = 3 \<and>
   findKNearestContacts_rounds ex_near ex_target \<le> 160 * k_package \<and>
   findKNearest_left_rounds ex_near 93 94 [ex_b, ex_a] = 3 \<and>
   findKNearest_left_rounds ex_near 93 94 [ex_b, ex_a] \<le> 160 * k_package \<and>
   findKNearest_right_rounds ex_near 95 [ex_b, ex_a] = 3 \<and>
   findKNearest_right_rounds ex_near 95 [ex_b, ex_a] \<le> 160 * k_package"
proof -
  have "add_rounds ex_near ex_a = 2" "remove_rounds ex_near ex_a = 2"
    "ContactFromID_rounds ex_near ex_target = 3"
    "findKNearestContacts_rounds ex_near ex_target = 3"
    "findKNearest_left_rounds ex_near 93 94 [ex_b, ex_a] = 3"
    "findKNearest_right_rounds ex_near 95 [ex_b, ex_a] = 3"
    by code_simp+
  then show ?thesis
    using rounds_bounded [OF ex_near_reachable, of ex_a ex_target 93 94 "[ex_b, ex_a]"]
      ex_near_reachable
    by simp
qed

end
